theory Spec2Isabelle
  imports Main "HOL-Library.Sublist" "HOL-Library.Char_ord"
begin

section \<open>Strings as the Go code sees them\<close>

text \<open>
  A Go \<^verbatim>\<open>string\<close> and a \<^verbatim>\<open>[]byte\<close> are both modelled as \<^typ>\<open>string\<close>, a list of
  bytes. The functions of package \<^verbatim>\<open>strings\<close> that the proxy calls are written out here
  with their Go names. The separators and keywords the proxy looks for are ASCII, and
  every byte of a multi-byte UTF-8 sequence is above 127, so working on bytes gives the
  results Go computes on runes.
\<close>

definition HasPrefix :: "string \<Rightarrow> string \<Rightarrow> bool" where
  "HasPrefix s pre = prefix pre s"

text \<open>\<^verbatim>\<open>strings.Index\<close>: the position of the first occurrence, or -1.\<close>

fun Index :: "string \<Rightarrow> string \<Rightarrow> int" where
  "Index [] sub = (if sub = [] then 0 else - 1)"
| "Index (c # cs) sub =
     (if prefix sub (c # cs) then 0
      else (let i = Index cs sub in if i < 0 then - 1 else i + 1))"

text \<open>\<^verbatim>\<open>strings.Contains(s, substr)\<close> is \<^verbatim>\<open>Index(s, substr) >= 0\<close>.\<close>

definition Contains :: "string \<Rightarrow> string \<Rightarrow> bool" where
  "Contains s sub = (0 \<le> Index s sub)"

text \<open>
  \<^verbatim>\<open>strings.FieldsFunc(s, f)\<close>: the maximal non-empty runs of bytes on which the
  separator test \<open>f\<close> is false, in order.
\<close>

function FieldsFunc :: "string \<Rightarrow> (char \<Rightarrow> bool) \<Rightarrow> string list" where
  "FieldsFunc [] f = []"
| "FieldsFunc (c # cs) f =
     (if f c then FieldsFunc cs f
      else (c # takeWhile (\<lambda>x. \<not> f x) cs) # FieldsFunc (dropWhile (\<lambda>x. \<not> f x) cs) f)"
  by pat_completeness auto
termination
  by (relation "measure (\<lambda>(s, f). length s)")
     (auto simp: less_Suc_eq_le length_dropWhile_le)

text \<open>
  \<^verbatim>\<open>strings.ToUpper\<close>. On a string of ASCII bytes Go maps \<^verbatim>\<open>a..z\<close> to \<^verbatim>\<open>A..Z\<close>
  (it subtracts 32) and keeps every other byte. On a string with a byte above 127 it
  returns \<^verbatim>\<open>strings.Map(unicode.ToUpper, s)\<close>, which depends on the Unicode tables of
  the Go runtime; that mapping is the parameter \<open>mapUnicode\<close>.
\<close>

definition upperASCII :: "char \<Rightarrow> char" where
  "upperASCII c =
     (case map_of (zip ''abcdefghijklmnopqrstuvwxyz'' ''ABCDEFGHIJKLMNOPQRSTUVWXYZ'') c of
        Some u \<Rightarrow> u
      | None \<Rightarrow> c)"

definition isASCII :: "string \<Rightarrow> bool" where
  "isASCII s = list_all (\<lambda>c. c < CHR 0x80) s"

definition ToUpper :: "(string \<Rightarrow> string) \<Rightarrow> string \<Rightarrow> string" where
  "ToUpper mapUnicode s = (if isASCII s then map upperASCII s else mapUnicode s)"

section \<open>Path normalisation: \<^verbatim>\<open>filepath.Clean\<close>\<close>

text \<open>
  \<^verbatim>\<open>filepath.Clean\<close> on a Unix path, as package \<^verbatim>\<open>path/filepath\<close> documents it: the
  path is read element by element (the non-empty runs between slashes); a \<^verbatim>\<open>.\<close>
  element is dropped; a \<^verbatim>\<open>..\<close> element removes the element written before it, if
  there is one that is not itself \<^verbatim>\<open>..\<close>; otherwise it is dropped in a rooted path and
  kept in a relative one. The result is the elements joined by single slashes, after a
  leading slash when the path is rooted; the empty result is \<^verbatim>\<open>.\<close>.
\<close>

definition isSlash :: "char \<Rightarrow> bool" where
  "isSlash c = (c = CHR ''/'')"

fun cleanElems :: "bool \<Rightarrow> string list \<Rightarrow> string list \<Rightarrow> string list" where
  "cleanElems rooted out [] = out"
| "cleanElems rooted out (e # es) =
     (if e = ''.'' then cleanElems rooted out es
      else if e = ''..'' then
        (if out \<noteq> [] \<and> last out \<noteq> ''..'' then cleanElems rooted (butlast out) es
         else if \<not> rooted then cleanElems rooted (out @ [''..'']) es
         else cleanElems rooted out es)
      else cleanElems rooted (out @ [e]) es)"

fun joinElems :: "string list \<Rightarrow> string" where
  "joinElems [] = []"
| "joinElems [e] = e"
| "joinElems (e # es) = e @ CHR ''/'' # joinElems es"

definition Clean :: "string \<Rightarrow> string" where
  "Clean path =
     (if path = [] then ''.''
      else
        (let rooted = isSlash (hd path);
             out = cleanElems rooted [] (FieldsFunc path isSlash)
         in if rooted then CHR ''/'' # joinElems out
            else if out = [] then ''.''
            else joinElems out))"

section \<open>The path matcher\<close>

text \<open>
  \<^verbatim>\<open>matchesAPIPath\<close> (proxy_common.go): \<open>path\<close> starts with \<open>apiPath\<close> and either ends
  there or goes on with a slash or a question mark.
\<close>

definition matchesAPIPath :: "string \<Rightarrow> string \<Rightarrow> bool" where
  "matchesAPIPath path apiPath =
     (if \<not> HasPrefix path apiPath then False
      else if length path = length apiPath then True
      else (let nextChar = path ! length apiPath
            in nextChar = CHR ''/'' \<or> nextChar = CHR ''?''))"

text \<open>
  The test of the loop over the database name in \<^verbatim>\<open>HasAPIPathPrefix\<close>. Go ranges over
  runes; a rune outside ASCII fails the test as each of its bytes does.
\<close>

definition validDBChar :: "char \<Rightarrow> bool" where
  "validDBChar c =
     ((CHR ''a'' \<le> c \<and> c \<le> CHR ''z'') \<or> (CHR ''A'' \<le> c \<and> c \<le> CHR ''Z'') \<or>
      (CHR ''0'' \<le> c \<and> c \<le> CHR ''9'') \<or> c = CHR ''_'' \<or> c = CHR ''-'')"

text \<open>\<^verbatim>\<open>HasAPIPathPrefix\<close> (proxy_common.go), statement by statement.\<close>

definition HasAPIPathPrefix :: "string \<Rightarrow> string \<Rightarrow> bool" where
  "HasAPIPathPrefix fullPath apiPath =
     (let cleaned = Clean fullPath;
          cleanPath = (if \<not> HasPrefix cleaned ''/'' then ''/'' @ cleaned else cleaned)
      in if Contains fullPath ''..'' then False
         else if matchesAPIPath cleanPath apiPath then True
         else if HasPrefix cleanPath ''/_db/'' then
           (let rest = drop 5 cleanPath;
                slashIdx = Index rest ''/''
            in if 0 < slashIdx then
                 (let dbName = take (nat slashIdx) rest;
                      validDB = list_all validDBChar dbName
                  in if validDB then
                       (let pathAfterDB = drop (nat slashIdx) rest
                        in matchesAPIPath pathAfterDB apiPath)
                     else False)
               else False)
         else False)"

section \<open>The path matcher as the specification words it\<close>

text \<open>
  The specification describes \<^verbatim>\<open>hasAPIPrefix\<close> by what the normalised path looks like,
  not by indices. These definitions follow its words, for comparison with the code:
  the normalised path is the cleaned path with a leading slash; a boundary match is
  "equals \<open>apiPath\<close>, or starts with \<open>apiPath\<close> followed immediately by \<^verbatim>\<open>/\<close> or \<^verbatim>\<open>?\<close>";
  a validated database prefix is \<^verbatim>\<open>/_db/<name>\<close> before a slash, with a non-empty name
  of allowed characters, and what is matched after it starts at that slash.
\<close>

definition normalise :: "string \<Rightarrow> string" where
  "normalise p =
     (let cleaned = Clean p in if \<not> HasPrefix cleaned ''/'' then ''/'' @ cleaned else cleaned)"

definition boundaryMatch :: "string \<Rightarrow> string \<Rightarrow> bool" where
  "boundaryMatch p a =
     (p = a \<or> (\<exists>t. p = a @ CHR ''/'' # t) \<or> (\<exists>t. p = a @ CHR ''?'' # t))"

definition specPrefixMatch :: "string \<Rightarrow> string \<Rightarrow> bool" where
  "specPrefixMatch p a =
     (boundaryMatch (normalise p) a \<or>
      (\<exists>name tail. normalise p = ''/_db/'' @ name @ CHR ''/'' # tail \<and> name \<noteq> [] \<and>
          list_all validDBChar name \<and> boundaryMatch (CHR ''/'' # tail) a))"

section \<open>The cursor path pattern\<close>

text \<open>
  \<^verbatim>\<open>cursorPathRegexp\<close> is a compiled regular expression. The expressions it is built
  from are the operators of Go's \<^verbatim>\<open>regexp/syntax\<close> that the pattern uses: a literal
  string, a character class given by its ranges, concatenation, \<^verbatim>\<open>+\<close> and \<^verbatim>\<open>?\<close>
  (alternation, repetition and the empty language are there for the matcher's own
  intermediate expressions). The matcher consumes the input byte by byte, replacing
  the expression by what may still follow.
\<close>

datatype regexp =
    NoMatch
  | Lit string
  | CharClass "(char \<times> char) list"
  | Concat regexp regexp
  | Alternate regexp regexp
  | Star regexp
  | Plus regexp
  | Quest regexp

fun inClass :: "(char \<times> char) list \<Rightarrow> char \<Rightarrow> bool" where
  "inClass [] c = False"
| "inClass ((lo, hi) # rs) c = ((lo \<le> c \<and> c \<le> hi) \<or> inClass rs c)"

fun nullable :: "regexp \<Rightarrow> bool" where
  "nullable NoMatch = False"
| "nullable (Lit s) = (s = [])"
| "nullable (CharClass rs) = False"
| "nullable (Concat r s) = (nullable r \<and> nullable s)"
| "nullable (Alternate r s) = (nullable r \<or> nullable s)"
| "nullable (Star r) = True"
| "nullable (Plus r) = nullable r"
| "nullable (Quest r) = True"

fun deriv :: "char \<Rightarrow> regexp \<Rightarrow> regexp" where
  "deriv c NoMatch = NoMatch"
| "deriv c (Lit s) = (case s of [] \<Rightarrow> NoMatch | x # xs \<Rightarrow> if c = x then Lit xs else NoMatch)"
| "deriv c (CharClass rs) = (if inClass rs c then Lit [] else NoMatch)"
| "deriv c (Concat r s) =
     (if nullable r then Alternate (Concat (deriv c r) s) (deriv c s)
      else Concat (deriv c r) s)"
| "deriv c (Alternate r s) = Alternate (deriv c r) (deriv c s)"
| "deriv c (Star r) = Concat (deriv c r) (Star r)"
| "deriv c (Plus r) = Concat (deriv c r) (Star r)"
| "deriv c (Quest r) = deriv c r"

text \<open>
  \<^verbatim>\<open>MatchString\<close> for a pattern anchored by \<^verbatim>\<open>^\<close> and \<^verbatim>\<open>$\<close> (without the multi-line
  flag \<^verbatim>\<open>$\<close> is the end of the text): the whole input has to match.
\<close>

fun MatchString :: "regexp \<Rightarrow> string \<Rightarrow> bool" where
  "MatchString r [] = nullable r"
| "MatchString r (c # cs) = MatchString (deriv c r) cs"

text \<open>
  The pattern of proxy_common.go,
  \<^verbatim>\<open>^(/_db/[a-zA-Z0-9_-]+)?/_api/cursor(?:/[0-9]+)?$\<close>, between its anchors.
\<close>

definition cursorPathRegexp :: regexp where
  "cursorPathRegexp =
     Concat
       (Quest (Concat (Lit ''/_db/'')
          (Plus (CharClass [(CHR ''a'', CHR ''z''), (CHR ''A'', CHR ''Z''), (CHR ''0'', CHR ''9''),
                            (CHR ''_'', CHR ''_''), (CHR ''-'', CHR ''-'')]))))
       (Concat (Lit ''/_api/cursor'')
          (Quest (Concat (Lit ''/'') (Plus (CharClass [(CHR ''0'', CHR ''9'')])))))"

definition IsCursorPath :: "string \<Rightarrow> bool" where
  "IsCursorPath path = MatchString cursorPathRegexp path"

text \<open>The strings an expression stands for, to state what the matcher decides.\<close>

inductive_set star :: "string set \<Rightarrow> string set" for A :: "string set" where
  star_empty: "[] \<in> star A"
| star_more: "u \<in> A \<Longrightarrow> v \<in> star A \<Longrightarrow> u @ v \<in> star A"

fun lang :: "regexp \<Rightarrow> string set" where
  "lang NoMatch = {}"
| "lang (Lit s) = {s}"
| "lang (CharClass rs) = {[c] | c. inClass rs c}"
| "lang (Concat r s) = {u @ v | u v. u \<in> lang r \<and> v \<in> lang s}"
| "lang (Alternate r s) = lang r \<union> lang s"
| "lang (Star r) = star (lang r)"
| "lang (Plus r) = {u @ v | u v. u \<in> lang r \<and> v \<in> star (lang r)}"
| "lang (Quest r) = insert [] (lang r)"

text \<open>
  The cursor endpoint in the specification's words: an optional \<^verbatim>\<open>/_db/<name>\<close> prefix
  with a non-empty name of allowed characters, then \<^verbatim>\<open>/_api/cursor\<close>, then optionally
  \<^verbatim>\<open>/<digits>\<close>, and nothing else.
\<close>

definition isDigit :: "char \<Rightarrow> bool" where
  "isDigit c = (CHR ''0'' \<le> c \<and> c \<le> CHR ''9'')"

definition specCursorPath :: "string \<Rightarrow> bool" where
  "specCursorPath p =
     (\<exists>pre suf. p = pre @ ''/_api/cursor'' @ suf \<and>
        (pre = [] \<or> (\<exists>name. pre = ''/_db/'' @ name \<and> name \<noteq> [] \<and> list_all validDBChar name)) \<and>
        (suf = [] \<or> (\<exists>ds. suf = CHR ''/'' # ds \<and> ds \<noteq> [] \<and> list_all isDigit ds)))"

text \<open>\<^verbatim>\<open>AllowedRWAPIPaths\<close>, the API paths the read-write proxy opens for writing.\<close>

definition AllowedRWAPIPaths :: "string list" where
  "AllowedRWAPIPaths = [''/_api/document'', ''/_api/collection'', ''/_api/index'', ''/_api/import'']"

section \<open>Errors and what the client reads\<close>

text \<open>
  Every \<^verbatim>\<open>error\<close> the policies and the body reader return, with the arguments of its
  \<^verbatim>\<open>fmt.Errorf\<close>; \<open>errorString\<close> is \<^verbatim>\<open>err.Error()\<close>. \<open>ReadFailed\<close> carries the text of
  the error the request body's reader returned. \<^verbatim>\<open>%q\<close> is applied to keywords only,
  which are letters \<^verbatim>\<open>A..Z\<close>, so quoting puts them between double quotes.
\<close>

datatype error =
    NotPermitted string string
  | ForbiddenAQL string
  | ForbiddenBody string
  | ExceedsLimit int
  | ReadFailed string

definition digitChar :: "nat \<Rightarrow> char" where
  "digitChar d = ''0123456789'' ! d"

fun natDecimal :: "nat \<Rightarrow> string" where
  "natDecimal n = (if n < 10 then [digitChar n] else natDecimal (n div 10) @ [digitChar (n mod 10)])"

definition intDecimal :: "int \<Rightarrow> string" where
  "intDecimal i = (if i < 0 then CHR ''-'' # natDecimal (nat (- i)) else natDecimal (nat i))"

definition quoted :: "string \<Rightarrow> string" where
  "quoted s = CHR 0x22 # s @ [CHR 0x22]"

fun errorString :: "error \<Rightarrow> string" where
  "errorString (NotPermitted method path) = ''method '' @ method @ '' not permitted on '' @ path"
| "errorString (ForbiddenAQL token) = ''forbidden keyword '' @ quoted token @ '' detected in AQL''"
| "errorString (ForbiddenBody keyword) =
     ''forbidden keyword '' @ quoted keyword @ '' detected in request body''"
| "errorString (ExceedsLimit effectiveLimit) =
     ''request body exceeds inspection limit ('' @ intDecimal effectiveLimit @ '' bytes)''"
| "errorString (ReadFailed msg) = msg"

section \<open>Requests, and policies as programs over a body peeker\<close>

text \<open>
  What the handler reads of an \<^verbatim>\<open>*http.Request\<close>. \<open>Body\<close> is \<^verbatim>\<open>r.Body\<close>, \<open>None\<close> when
  it is nil. A body stream delivers the bytes of \<open>unread\<close> and then ends: with \<^verbatim>\<open>io.EOF\<close>
  when \<open>ending\<close> is \<open>None\<close>, with a read error of the given text otherwise. A Go reader
  may report its error by a \<^verbatim>\<open>Read\<close> of its own that returns no data (\<open>AfterData\<close>), or
  together with the last bytes it delivers (\<open>WithLastData\<close>).
\<close>

datatype readError = AfterData string | WithLastData string

record bodyStream =
  unread :: string
  ending :: "readError option"
  closed :: bool

record request =
  Method :: string
  Path :: string
  RawQuery :: string
  Body :: "bodyStream option"

text \<open>
  An \<^verbatim>\<open>AllowFunc\<close> gets the request and a \<^verbatim>\<open>BodyPeeker\<close>, a closure it may call any
  number of times. It is modelled as a program that either returns (\<open>Done\<close>) or calls
  the peeker with a limit and goes on with the result (\<open>Peek\<close>); the peeker's answer is
  \<open>Inr\<close> the bytes or \<open>Inl\<close> the error. \<open>run\<close> executes such a program against a peeker
  that threads its own state, \<open>bind\<close> is sequencing, and \<open>decision\<close> is the error the
  policy returns (\<open>None\<close> is nil: allow).
\<close>

datatype 'a peeking = Done 'a | Peek int "(error + string) \<Rightarrow> 'a peeking"

primrec run :: "'a peeking \<Rightarrow> (int \<Rightarrow> 's \<Rightarrow> (error + string) \<times> 's) \<Rightarrow> 's \<Rightarrow> 'a \<times> 's" where
  "run (Done x) peek s = (x, s)"
| "run (Peek limit k) peek s = (case peek limit s of (res, s') \<Rightarrow> run (k res) peek s')"

primrec bind :: "'a peeking \<Rightarrow> ('a \<Rightarrow> 'b peeking) \<Rightarrow> 'b peeking" where
  "bind (Done x) f = f x"
| "bind (Peek limit k) f = Peek limit (\<lambda>res. bind (k res) f)"

definition decision ::
  "(request \<Rightarrow> error option peeking) \<Rightarrow> request \<Rightarrow>
     (int \<Rightarrow> 's \<Rightarrow> (error + string) \<times> 's) \<Rightarrow> 's \<Rightarrow> error option" where
  "decision allowFunc r peek s = fst (run (allowFunc r) peek s)"

text \<open>The stateless peekers of the test files.\<close>

definition mockBodyPeeker :: "string \<Rightarrow> int \<Rightarrow> unit \<Rightarrow> (error + string) \<times> unit" where
  "mockBodyPeeker b limit u = (Inr b, u)"

definition emptyBodyPeeker :: "int \<Rightarrow> unit \<Rightarrow> (error + string) \<times> unit" where
  "emptyBodyPeeker limit u = (Inr [], u)"

text \<open>
  Three things the handler takes from the Go runtime are parameters of the model:
  \<open>unmarshalQuery body\<close> is \<^verbatim>\<open>json.Unmarshal(body, &payload)\<close> for the payload struct
  with the one field \<^verbatim>\<open>Query\<close>, \<open>None\<close> when it returns an error and otherwise
  \<open>Some payload.Query\<close>; \<open>mapUnicodeUpper\<close> is \<^verbatim>\<open>strings.ToUpper\<close> on strings that are not
  ASCII; \<open>newRequestFails method url\<close> says whether \<^verbatim>\<open>http.NewRequestWithContext\<close>
  returns an error.
\<close>

record runtime =
  unmarshalQuery :: "string \<Rightarrow> string option"
  mapUnicodeUpper :: "string \<Rightarrow> string"
  newRequestFails :: "string \<Rightarrow> string \<Rightarrow> bool"

section \<open>The read-only policy\<close>

definition ForbiddenAQLKeywords :: "string \<rightharpoonup> unit" where
  "ForbiddenAQLKeywords =
     [''INSERT'' \<mapsto> (), ''UPDATE'' \<mapsto> (), ''UPSERT'' \<mapsto> (), ''REMOVE'' \<mapsto> (),
      ''REPLACE'' \<mapsto> (), ''TRUNCATE'' \<mapsto> (), ''DROP'' \<mapsto> ()]"

definition forbiddenKeywordsList :: "string list" where
  "forbiddenKeywordsList =
     [''INSERT'', ''UPDATE'', ''UPSERT'', ''REMOVE'', ''REPLACE'', ''TRUNCATE'', ''DROP'']"

text \<open>The separator test given to \<^verbatim>\<open>strings.FieldsFunc\<close> in \<^verbatim>\<open>AllowReadOnly\<close>.\<close>

definition notLetter :: "char \<Rightarrow> bool" where
  "notLetter r = (r < CHR ''A'' \<or> r > CHR ''Z'')"

text \<open>
  The two scans of \<^verbatim>\<open>AllowReadOnly\<close>: the loop over the tokens of the upper-cased query,
  which returns at the first token found in \<^verbatim>\<open>ForbiddenAQLKeywords\<close>, and the fallback
  loop over \<^verbatim>\<open>forbiddenKeywordsList\<close>, which returns at the first keyword the upper-cased
  body contains. \<open>inspectBody\<close> is what \<^verbatim>\<open>AllowReadOnly\<close> does with the peeked body: the
  token scan when unmarshalling succeeds with a non-empty query, the fallback otherwise.
\<close>

definition scanQuery :: "runtime \<Rightarrow> string \<Rightarrow> error option" where
  "scanQuery rt query =
     (let upper = ToUpper (mapUnicodeUpper rt) query;
          tokens = FieldsFunc upper notLetter
      in case find (\<lambda>token. ForbiddenAQLKeywords token \<noteq> None) tokens of
           Some token \<Rightarrow> Some (ForbiddenAQL token)
         | None \<Rightarrow> None)"

definition scanRawBody :: "runtime \<Rightarrow> string \<Rightarrow> error option" where
  "scanRawBody rt body =
     (let upper = ToUpper (mapUnicodeUpper rt) body
      in case find (\<lambda>keyword. Contains upper keyword) forbiddenKeywordsList of
           Some keyword \<Rightarrow> Some (ForbiddenBody keyword)
         | None \<Rightarrow> None)"

definition inspectBody :: "runtime \<Rightarrow> string \<Rightarrow> error option" where
  "inspectBody rt body =
     (case unmarshalQuery rt body of
        Some query \<Rightarrow> if query \<noteq> [] then scanQuery rt query else scanRawBody rt body
      | None \<Rightarrow> scanRawBody rt body)"

text \<open>\<^verbatim>\<open>AllowReadOnly\<close>: the switch on the method, and the final return for what is left.\<close>

definition AllowReadOnly :: "runtime \<Rightarrow> request \<Rightarrow> error option peeking" where
  "AllowReadOnly rt r =
     (let notPermitted = Done (Some (NotPermitted (Method r) (Path r)))
      in if Method r = ''GET'' \<or> Method r = ''HEAD'' \<or> Method r = ''OPTIONS'' then Done None
         else if Method r = ''POST'' then
           (if IsCursorPath (Path r) then
              Peek (128 * 1024) (\<lambda>res. case res of
                  Inl err \<Rightarrow> Done (Some err)
                | Inr body \<Rightarrow> Done (inspectBody rt body))
            else notPermitted)
         else if Method r = ''DELETE'' then
           (if IsCursorPath (Path r) then Done None else notPermitted)
         else notPermitted)"

text \<open>
  The specification's "maximal runs of letters": \<open>t\<close> is a non-empty run of \<^verbatim>\<open>A..Z\<close> in
  \<open>s\<close> with no letter next to it on either side.
\<close>

definition isUpperLetter :: "char \<Rightarrow> bool" where
  "isUpperLetter c = (CHR ''A'' \<le> c \<and> c \<le> CHR ''Z'')"

definition letterRun :: "string \<Rightarrow> string \<Rightarrow> bool" where
  "letterRun s t =
     (t \<noteq> [] \<and> list_all isUpperLetter t \<and>
      (\<exists>pre post. s = pre @ t @ post \<and> (pre = [] \<or> \<not> isUpperLetter (last pre)) \<and>
         (post = [] \<or> \<not> isUpperLetter (hd post))))"

section \<open>The read-write policy\<close>

text \<open>
  \<^verbatim>\<open>AllowReadWrite\<close>: it first runs \<^verbatim>\<open>AllowReadOnly\<close> with the same peeker and returns
  nil if that does; any error of the read-only policy, whatever its kind, leads to the
  switch on the method.
\<close>

definition AllowReadWrite :: "runtime \<Rightarrow> request \<Rightarrow> error option peeking" where
  "AllowReadWrite rt r =
     bind (AllowReadOnly rt r) (\<lambda>err.
       if err = None then Done None
       else
         (let path = Path r;
              notPermitted = Done (Some (NotPermitted (Method r) path))
          in if Method r = ''POST'' then
               (if IsCursorPath path then Done None
                else if list_ex (\<lambda>apiPath. HasAPIPathPrefix path apiPath) AllowedRWAPIPaths
                then Done None
                else notPermitted)
             else if Method r = ''PUT'' \<or> Method r = ''PATCH'' \<or> Method r = ''DELETE'' then
               (if list_ex (\<lambda>apiPath. HasAPIPathPrefix path apiPath)
                     [''/_api/document'', ''/_api/collection'', ''/_api/index'']
                then Done None
                else notPermitted)
             else notPermitted))"

section \<open>The body peeker and the handler\<close>

definition MaxBodyPeekSize :: int where
  "MaxBodyPeekSize = 16 * 1024 * 1024"

text \<open>
  The state the closure \<^verbatim>\<open>bodyReader\<close> of \<^verbatim>\<open>ServeHTTP\<close> captures: \<^verbatim>\<open>cachedBody\<close> (nil is
  the empty list), \<^verbatim>\<open>bodyConsumed\<close>, and the request's body.
\<close>

record peeker =
  cachedBody :: string
  bodyConsumed :: bool
  body :: "bodyStream option"

definition effectiveLimit :: "int \<Rightarrow> int" where
  "effectiveLimit limit = (if limit \<le> 0 \<or> limit > MaxBodyPeekSize then MaxBodyPeekSize else limit)"

text \<open>
  \<^verbatim>\<open>buf.ReadFrom(lr)\<close> for an \<^verbatim>\<open>io.LimitedReader\<close> that allows \<open>n\<close> bytes: the bytes
  buffered and the error returned (\<open>None\<close> is nil). The limited reader hands on at most
  \<open>n\<close> bytes and passes the stream's \<^verbatim>\<open>(n, err)\<close> through unchanged; once \<open>n\<close> bytes are
  taken it answers \<^verbatim>\<open>io.EOF\<close> itself, without asking the stream again. So an error that
  comes after the data is met only when the stream has fewer than \<open>n\<close> bytes, and an
  error that comes with the last bytes is met as soon as the last bytes are taken, also
  when they are the \<open>n\<close>-th.
\<close>

definition ReadFrom :: "bodyStream \<Rightarrow> nat \<Rightarrow> string \<times> string option" where
  "ReadFrom b n =
     (take n (unread b),
      case ending b of
        None \<Rightarrow> None
      | Some (AfterData msg) \<Rightarrow> if length (unread b) < n then Some msg else None
      | Some (WithLastData msg) \<Rightarrow> if length (unread b) \<le> n then Some msg else None)"

text \<open>
  \<^verbatim>\<open>bodyReader\<close>. The error of \<^verbatim>\<open>buf.ReadFrom\<close> is returned before \<^verbatim>\<open>lr.N\<close> is looked
  at; \<^verbatim>\<open>lr.N\<close> after the read is \<open>n\<close> minus the bytes taken. The deferred assignment sets
  \<^verbatim>\<open>bodyConsumed\<close> on every path that read, and the body is closed on each.
\<close>

definition bodyReader :: "int \<Rightarrow> peeker \<Rightarrow> (error + string) \<times> peeker" where
  "bodyReader limit s =
     (if bodyConsumed s then (Inr (cachedBody s), s)
      else case body s of
        None \<Rightarrow> (Inr [], s\<lparr>bodyConsumed := True\<rparr>)
      | Some b \<Rightarrow>
          (let n = nat (effectiveLimit limit + 1);
               (buf, err) = ReadFrom b n;
               rest = b\<lparr>unread := drop n (unread b), closed := True\<rparr>;
               s' = s\<lparr>body := Some rest, bodyConsumed := True\<rparr>
           in case err of
                Some msg \<Rightarrow> (Inl (ReadFailed msg), s')
              | None \<Rightarrow>
                  if int n - int (length buf) \<le> 0 then
                    (Inl (ExceedsLimit (effectiveLimit limit)), s')
                  else (Inr buf, s'\<lparr>cachedBody := buf\<rparr>)))"

definition buildUpstreamURL :: "request \<Rightarrow> string" where
  "buildUpstreamURL r =
     ''http://arangodb'' @ Path r @ (if RawQuery r \<noteq> [] then CHR ''?'' # RawQuery r else [])"

text \<open>
  \<^verbatim>\<open>ServeHTTP\<close> up to the call of \<^verbatim>\<open>p.client.Do\<close>: it either answers the client itself
  (\<open>Reply\<close>, the status and the text given to \<^verbatim>\<open>http.Error\<close>) or sends a request
  upstream (\<open>Dispatch\<close>). The upstream body is the cached bytes when the policy consumed
  the body and the untouched request body otherwise; \<^verbatim>\<open>ContentLength\<close> is set only in
  the first case. Header copying, closing an unread body after a denial and the relay
  of the upstream response are not part of this model.
\<close>

datatype upstreamBody = Cached string | Original "bodyStream option"

record upstreamRequest =
  uMethod :: string
  uURL :: string
  uBody :: upstreamBody
  uContentLength :: int

datatype outcome = Reply nat string | Dispatch upstreamRequest

definition initPeeker :: "request \<Rightarrow> peeker" where
  "initPeeker r = \<lparr>cachedBody = [], bodyConsumed = False, body = Body r\<rparr>"

definition ServeHTTP ::
  "runtime \<Rightarrow> (request \<Rightarrow> error option peeking) \<Rightarrow> request \<Rightarrow> outcome" where
  "ServeHTTP rt allowFunc r =
     (case run (allowFunc r) bodyReader (initPeeker r) of
        (Some err, s) \<Rightarrow> Reply 403 (errorString err)
      | (None, s) \<Rightarrow>
          (let upstreamBody = (if bodyConsumed s then Cached (cachedBody s) else Original (body s));
               upstreamURL = buildUpstreamURL r
           in if newRequestFails rt (Method r) upstreamURL then
                Reply 500 ''failed to build upstream request''
              else
                Dispatch \<lparr>uMethod = Method r, uURL = upstreamURL, uBody = upstreamBody,
                  uContentLength = (if bodyConsumed s then int (length (cachedBody s)) else 0)\<rparr>))"

section \<open>Facts about the string primitives\<close>

lemma Index_nonneg_iff: "0 \<le> Index s sub \<longleftrightarrow> sublist sub s"
  by (induction s) (auto simp: Let_def sublist_Cons_right)

lemma Contains_iff: "Contains s sub \<longleftrightarrow> (\<exists>ps ss. s = ps @ sub @ ss)"
  by (simp add: Contains_def Index_nonneg_iff sublist_def)

lemma FieldsFunc_sublist: "e \<in> set (FieldsFunc s f) \<Longrightarrow> sublist e s"
proof (induction s f rule: FieldsFunc.induct)
  case (1 f)
  then show ?case by simp
next
  case (2 c cs f)
  show ?case
  proof (cases "f c")
    case True
    with 2 show ?thesis by (auto intro: sublist_Cons_right[THEN iffD2])
  next
    case False
    let ?t = "takeWhile (\<lambda>x. \<not> f x) cs" and ?d = "dropWhile (\<lambda>x. \<not> f x) cs"
    from 2(3) False consider "e = c # ?t" | "e \<in> set (FieldsFunc ?d f)" by auto
    then show ?thesis
    proof cases
      case 1
      have "c # cs = [] @ e @ ?d" using 1 by simp
      then show ?thesis unfolding sublist_def by blast
    next
      case 2
      with "2.IH"(2) False obtain ps ss where "?d = ps @ e @ ss"
        unfolding sublist_def by blast
      then have "c # cs = (c # ?t @ ps) @ e @ ss"
        by (metis append_Cons append_assoc takeWhile_dropWhile_id)
      then show ?thesis unfolding sublist_def by blast
    qed
  qed
qed

section \<open>The code's prefix test against the specification's\<close>

lemma matchesAPIPath_iff: "matchesAPIPath p a \<longleftrightarrow> boundaryMatch p a"
proof
  assume m: "matchesAPIPath p a"
  then have "prefix a p" by (simp add: matchesAPIPath_def HasPrefix_def split: if_splits)
  then obtain t where p: "p = a @ t" by (auto simp: prefix_def)
  show "boundaryMatch p a"
  proof (cases t)
    case Nil
    with p show ?thesis by (simp add: boundaryMatch_def)
  next
    case (Cons x xs)
    with m p have "x = CHR ''/'' \<or> x = CHR ''?''"
      by (simp add: matchesAPIPath_def HasPrefix_def Let_def)
    with p Cons show ?thesis by (auto simp: boundaryMatch_def)
  qed
next
  assume "boundaryMatch p a"
  then show "matchesAPIPath p a"
    by (auto simp: boundaryMatch_def matchesAPIPath_def HasPrefix_def Let_def)
qed

lemma validDBChar_not_slash: "validDBChar c \<Longrightarrow> c \<noteq> CHR ''/''"
  by (auto simp: validDBChar_def)

lemma Index_slash_first:
  "CHR ''/'' \<notin> set name \<Longrightarrow> Index (name @ CHR ''/'' # tail) ''/'' = int (length name)"
  by (induction name) (auto simp: Let_def)

lemma Index_slash_split:
  "0 \<le> Index s ''/'' \<Longrightarrow>
     \<exists>tail. s = take (nat (Index s ''/'')) s @ CHR ''/'' # tail \<and>
            CHR ''/'' \<notin> set (take (nat (Index s ''/'')) s)"
proof (induction s)
  case Nil
  then show ?case by simp
next
  case (Cons c cs)
  then show ?case
    by (cases "c = CHR ''/''") (auto simp: Let_def nat_add_distrib split: if_splits)
qed

lemma db_branch_iff:
  "(HasPrefix n ''/_db/'' \<and> 0 < Index (drop 5 n) ''/'' \<and>
      list_all validDBChar (take (nat (Index (drop 5 n) ''/'')) (drop 5 n)) \<and>
      matchesAPIPath (drop (nat (Index (drop 5 n) ''/'')) (drop 5 n)) a) \<longleftrightarrow>
   (\<exists>name tail. n = ''/_db/'' @ name @ CHR ''/'' # tail \<and> name \<noteq> [] \<and>
      list_all validDBChar name \<and> boundaryMatch (CHR ''/'' # tail) a)"
  (is "?L \<longleftrightarrow> ?R")
proof
  assume L: ?L
  let ?rest = "drop 5 n" and ?i = "nat (Index (drop 5 n) ''/'')"
  from L have pre: "n = ''/_db/'' @ ?rest"
    by (auto simp: HasPrefix_def prefix_def)
  from L have "0 \<le> Index ?rest ''/''" by simp
  from Index_slash_split[OF this] obtain tail where
    sp: "?rest = take ?i ?rest @ CHR ''/'' # tail" by blast
  have dr: "drop ?i ?rest = CHR ''/'' # tail"
    by (metis sp append_take_drop_id same_append_eq)
  have ne: "take ?i ?rest \<noteq> []" using L sp by auto
  show ?R
    apply (rule exI[of _ "take ?i ?rest"], rule exI[of _ tail])
    using L pre sp dr ne by (auto simp: matchesAPIPath_iff)
next
  assume ?R
  then obtain name tail where n: "n = ''/_db/'' @ name @ CHR ''/'' # tail"
    and ne: "name \<noteq> []" and v: "list_all validDBChar name"
    and b: "boundaryMatch (CHR ''/'' # tail) a" by blast
  have ns: "CHR ''/'' \<notin> set name"
    using v validDBChar_not_slash by (auto simp: list_all_iff)
  have i: "Index (drop 5 n) ''/'' = int (length name)"
    using n Index_slash_first[OF ns] by simp
  show ?L using n ne v b i by (simp add: HasPrefix_def matchesAPIPath_iff)
qed

lemma HasAPIPathPrefix_iff:
  "HasAPIPathPrefix p a \<longleftrightarrow> \<not> Contains p ''..'' \<and> specPrefixMatch p a"
proof -
  let ?n = "normalise p"
  have "HasAPIPathPrefix p a \<longleftrightarrow>
      \<not> Contains p ''..'' \<and> (matchesAPIPath ?n a \<or>
        (HasPrefix ?n ''/_db/'' \<and> 0 < Index (drop 5 ?n) ''/'' \<and>
      list_all validDBChar (take (nat (Index (drop 5 ?n) ''/'')) (drop 5 ?n)) \<and>
      matchesAPIPath (drop (nat (Index (drop 5 ?n) ''/'')) (drop 5 ?n)) a))"
    unfolding HasAPIPathPrefix_def normalise_def Let_def
    by (simp only: if_bool_eq_conj simp_thms) blast
  then show ?thesis
    unfolding specPrefixMatch_def
    using db_branch_iff[of ?n a] matchesAPIPath_iff[of ?n a] by blast
qed

lemmas path_eval =
  HasAPIPathPrefix_def Clean_def isSlash_def HasPrefix_def Contains_def
  matchesAPIPath_def validDBChar_def Let_def

section \<open>What the cursor pattern matches\<close>

lemma nullable_iff: "nullable r \<longleftrightarrow> [] \<in> lang r"
  by (induction r) (auto intro: star.intros)

lemma star_Cons:
  "c # w \<in> star A \<longleftrightarrow> (\<exists>u v. w = u @ v \<and> c # u \<in> A \<and> v \<in> star A)"
proof
  assume "c # w \<in> star A"
  then show "\<exists>u v. w = u @ v \<and> c # u \<in> A \<and> v \<in> star A"
  proof (induction "c # w" rule: star.induct)
    case (star_more u v)
    then show ?case by (cases u) auto
  qed
next
  assume "\<exists>u v. w = u @ v \<and> c # u \<in> A \<and> v \<in> star A"
  then obtain u v where "w = u @ v" "c # u \<in> A" "v \<in> star A" by blast
  then show "c # w \<in> star A" using star_more[of "c # u" A v] by simp
qed

lemma lang_deriv: "w \<in> lang (deriv c r) \<longleftrightarrow> c # w \<in> lang r"
proof (induction r arbitrary: w)
  case (Concat r s)
  then show ?case
    by (auto simp: nullable_iff Cons_eq_append_conv)
next
  case (Star r)
  then show ?case by (auto simp: star_Cons)
next
  case (Plus r)
  then show ?case
    by (auto simp: nullable_iff Cons_eq_append_conv star_Cons)
qed (auto split: list.splits)

lemma MatchString_lang: "MatchString r s \<longleftrightarrow> s \<in> lang r"
  by (induction s arbitrary: r) (auto simp: nullable_iff lang_deriv)

lemma star_chars: "star {[c] | c. P c} = {w. list_all P w}"
proof (intro set_eqI iffI)
  fix w assume "w \<in> star {[c] | c. P c}"
  then show "w \<in> {w. list_all P w}" by (induction rule: star.induct) auto
next
  fix w assume "w \<in> {w. list_all P w}"
  then have "list_all P w" by simp
  then show "w \<in> star {[c] | c. P c}"
  proof (induction w)
    case Nil
    show ?case by (rule star_empty)
  next
    case (Cons c w)
    then have "[c] \<in> {[c] | c. P c}" and "w \<in> star {[c] | c. P c}" by auto
    from star_more[OF this] show ?case by simp
  qed
qed

lemma lang_Plus_CharClass:
  "lang (Plus (CharClass rs)) = {w. w \<noteq> [] \<and> list_all (inClass rs) w}"
proof (intro set_eqI iffI)
  fix w assume "w \<in> lang (Plus (CharClass rs))"
  then show "w \<in> {w. w \<noteq> [] \<and> list_all (inClass rs) w}"
    by (auto simp: star_chars)
next
  fix w assume "w \<in> {w. w \<noteq> [] \<and> list_all (inClass rs) w}"
  then obtain c v where w: "w = [c] @ v" and c: "inClass rs c" and v: "list_all (inClass rs) v"
    by (cases w) auto
  have "[c] \<in> lang (CharClass rs)" using c by simp
  moreover have "v \<in> star (lang (CharClass rs))" using v star_chars[of "inClass rs"] by simp
  ultimately show "w \<in> lang (Plus (CharClass rs))" unfolding w lang.simps(7) by blast
qed

lemma inClass_db:
  "inClass [(CHR ''a'', CHR ''z''), (CHR ''A'', CHR ''Z''), (CHR ''0'', CHR ''9''),
            (CHR ''_'', CHR ''_''), (CHR ''-'', CHR ''-'')] = validDBChar"
  by (auto simp: validDBChar_def fun_eq_iff)

lemma inClass_digit: "inClass [(CHR ''0'', CHR ''9'')] = isDigit"
  by (auto simp: isDigit_def fun_eq_iff)

lemma lang_Concat_iff: "p \<in> lang (Concat r s) \<longleftrightarrow> (\<exists>u v. p = u @ v \<and> u \<in> lang r \<and> v \<in> lang s)"
  by auto

lemma lang_Lit_Concat_iff: "v \<in> lang (Concat (Lit s) r) \<longleftrightarrow> (\<exists>w. v = s @ w \<and> w \<in> lang r)"
  by auto

lemma lang_Quest_iff: "w \<in> lang (Quest r) \<longleftrightarrow> w = [] \<or> w \<in> lang r"
  by simp

lemma lang_Plus_CharClass_iff:
  "w \<in> lang (Plus (CharClass rs)) \<longleftrightarrow> w \<noteq> [] \<and> list_all (inClass rs) w"
  using lang_Plus_CharClass[of rs] by blast

lemma lang_cursorPathRegexp:
  "p \<in> lang cursorPathRegexp \<longleftrightarrow>
     (\<exists>u v. p = u @ v \<and>
        (u = [] \<or> (\<exists>w. u = ''/_db/'' @ w \<and> w \<noteq> [] \<and> list_all validDBChar w)) \<and>
        (\<exists>w. v = ''/_api/cursor'' @ w \<and>
           (w = [] \<or> (\<exists>d. w = ''/'' @ d \<and> d \<noteq> [] \<and> list_all isDigit d))))"
  unfolding cursorPathRegexp_def
  by (simp only: lang_Concat_iff[of _ "Quest _"] lang_Quest_iff lang_Lit_Concat_iff
        lang_Plus_CharClass_iff inClass_db inClass_digit)

lemma IsCursorPath_iff: "IsCursorPath p \<longleftrightarrow> specCursorPath p"
proof -
  have "IsCursorPath p \<longleftrightarrow> p \<in> lang cursorPathRegexp"
    by (simp add: IsCursorPath_def MatchString_lang)
  also have "\<dots> \<longleftrightarrow> specCursorPath p"
  proof
    assume "p \<in> lang cursorPathRegexp"
    then obtain u v w where p: "p = u @ v"
      and u: "u = [] \<or> (\<exists>w. u = ''/_db/'' @ w \<and> w \<noteq> [] \<and> list_all validDBChar w)"
      and v: "v = ''/_api/cursor'' @ w"
      and w: "w = [] \<or> (\<exists>d. w = ''/'' @ d \<and> d \<noteq> [] \<and> list_all isDigit d)"
      unfolding lang_cursorPathRegexp by blast
    from w have w': "w = [] \<or> (\<exists>ds. w = CHR ''/'' # ds \<and> ds \<noteq> [] \<and> list_all isDigit ds)"
      by simp
    show "specCursorPath p"
      unfolding specCursorPath_def
      apply (rule exI[of _ u], rule exI[of _ w])
      using p u v w' by simp
  next
    assume "specCursorPath p"
    then obtain pre suf where p: "p = pre @ ''/_api/cursor'' @ suf"
      and u: "pre = [] \<or> (\<exists>name. pre = ''/_db/'' @ name \<and> name \<noteq> [] \<and> list_all validDBChar name)"
      and w: "suf = [] \<or> (\<exists>ds. suf = CHR ''/'' # ds \<and> ds \<noteq> [] \<and> list_all isDigit ds)"
      unfolding specCursorPath_def by blast
    from w have w': "suf = [] \<or> (\<exists>d. suf = ''/'' @ d \<and> d \<noteq> [] \<and> list_all isDigit d)"
      by simp
    show "p \<in> lang cursorPathRegexp"
      unfolding lang_cursorPathRegexp
      apply (rule exI[of _ pre], rule exI[of _ "''/_api/cursor'' @ suf"])
      apply (intro conjI)
        apply (rule p)
       apply (rule u)
      apply (rule exI[of _ suf])
      using w' by simp
  qed
  finally show ?thesis .
qed

section \<open>Path elements and the cleaned path\<close>

lemma takeWhile_before_sep: "\<not> P x \<Longrightarrow> takeWhile P (cs @ x # s) = takeWhile P cs"
  by (induction cs) auto

lemma dropWhile_before_sep: "\<not> P x \<Longrightarrow> dropWhile P (cs @ x # s) = dropWhile P cs @ x # s"
  by (induction cs) auto

lemma FieldsFunc_append_sep:
  "f x \<Longrightarrow> FieldsFunc (u @ x # s) f = FieldsFunc u f @ FieldsFunc s f"
proof (induction u f rule: FieldsFunc.induct)
  case (1 f)
  then show ?case by simp
next
  case (2 c cs f)
  then show ?case
    by (cases "f c") (simp_all add: takeWhile_before_sep dropWhile_before_sep)
qed

lemma FieldsFunc_single:
  "e \<noteq> [] \<Longrightarrow> \<forall>c\<in>set e. \<not> f c \<Longrightarrow> FieldsFunc e f = [e]"
proof (cases e)
  case Nil
  assume "e \<noteq> []" with Nil show ?thesis by simp
next
  case (Cons c cs)
  assume a: "\<forall>c\<in>set e. \<not> f c"
  then have t: "takeWhile (\<lambda>x. \<not> f x) cs = cs" and d: "dropWhile (\<lambda>x. \<not> f x) cs = []"
    using Cons by auto
  from a Cons have "\<not> f c" by simp
  then show ?thesis unfolding Cons by (simp add: t d)
qed

lemma FieldsFunc_run_then:
  "e \<noteq> [] \<Longrightarrow> \<forall>c\<in>set e. \<not> f c \<Longrightarrow>
     \<exists>t r. FieldsFunc (e @ s) f = (e @ t) # r \<and> (\<forall>c\<in>set t. \<not> f c)"
proof (cases e)
  case Nil
  assume "e \<noteq> []" with Nil show ?thesis by simp
next
  case (Cons c cs)
  assume a: "\<forall>c\<in>set e. \<not> f c"
  have "takeWhile (\<lambda>x. \<not> f x) (cs @ s) = cs @ takeWhile (\<lambda>x. \<not> f x) s"
    using a Cons by simp
  then show ?thesis using a Cons
    by (auto intro!: exI[of _ "takeWhile (\<lambda>x. \<not> f x) s"] dest: set_takeWhileD)
qed

lemma cleanElems_no_dotdot:
  "''..'' \<notin> set es \<Longrightarrow> cleanElems rooted out es = out @ filter (\<lambda>e. e \<noteq> ''.'') es"
  by (induction es arbitrary: out) auto

lemma no_dotdot_elems: "\<not> Contains p ''..'' \<Longrightarrow> ''..'' \<notin> set (FieldsFunc p isSlash)"
  using FieldsFunc_sublist[of "''..''" p isSlash]
  by (auto simp: Contains_def Index_nonneg_iff)

lemma normalise_rooted:
  assumes "\<not> Contains (CHR ''/'' # s) ''..''"
  shows "normalise (CHR ''/'' # s) =
           CHR ''/'' # joinElems (filter (\<lambda>e. e \<noteq> ''.'') (FieldsFunc s isSlash))"
proof -
  have "''..'' \<notin> set (FieldsFunc (CHR ''/'' # s) isSlash)"
    using assms by (rule no_dotdot_elems)
  then have "''..'' \<notin> set (FieldsFunc s isSlash)" by (simp add: isSlash_def)
  then show ?thesis
    by (simp add: normalise_def Clean_def isSlash_def HasPrefix_def cleanElems_no_dotdot)
qed

lemma joinElems_Cons: "joinElems (e # es) = e @ (if es = [] then [] else CHR ''/'' # joinElems es)"
  by (cases es) auto

lemma FieldsFunc_slash:
  "FieldsFunc (u @ CHR ''/'' # s) isSlash = FieldsFunc u isSlash @ FieldsFunc s isSlash"
  by (rule FieldsFunc_append_sep) (simp add: isSlash_def)

section \<open>Database names and fixed prefixes\<close>

lemma slashfree_split_unique:
  "CHR ''/'' \<notin> set u \<Longrightarrow> CHR ''/'' \<notin> set u' \<Longrightarrow> u @ CHR ''/'' # r = u' @ CHR ''/'' # r' \<Longrightarrow>
     u = u' \<and> r = r'"
proof (induction u arbitrary: u')
  case Nil
  then show ?case by (cases u') auto
next
  case (Cons c u)
  then show ?case by (cases u') auto
qed

lemma isDigit_not_slash: "isDigit c \<Longrightarrow> c \<noteq> CHR ''/''"
  by (auto simp: isDigit_def)

lemma digits_no_slash: "list_all isDigit ds \<Longrightarrow> filter isSlash ds = []"
  by (induction ds) (auto simp: isSlash_def dest: isDigit_not_slash)

lemma cursor_trailing_slash: "\<not> IsCursorPath (q @ ''/'')"
proof
  assume "IsCursorPath (q @ ''/'')"
  then obtain pre suf where p: "q @ ''/'' = pre @ ''/_api/cursor'' @ suf"
    and w: "suf = [] \<or> (\<exists>ds. suf = CHR ''/'' # ds \<and> ds \<noteq> [] \<and> list_all isDigit ds)"
    unfolding IsCursorPath_iff specCursorPath_def by blast
  from w show False
  proof
    assume "suf = []"
    with p have "last (q @ ''/'') = last (pre @ ''/_api/cursor'')" by simp
    then show False by simp
  next
    assume "\<exists>ds. suf = CHR ''/'' # ds \<and> ds \<noteq> [] \<and> list_all isDigit ds"
    then obtain ds where s: "suf = CHR ''/'' # ds" and ne: "ds \<noteq> []" and d: "list_all isDigit ds"
      by blast
    from p s ne have "last (q @ ''/'') = last ds" by simp
    then have "last ds = CHR ''/''" by simp
    moreover have "isDigit (last ds)" using d ne by (simp add: list_all_iff)
    ultimately show False using isDigit_not_slash by blast
  qed
qed

lemma cursor_invalid_db_rejected:
  assumes bad: "name = [] \<or> \<not> list_all validDBChar name"
    and suf: "suf = [] \<or> (\<exists>ds. suf = CHR ''/'' # ds \<and> ds \<noteq> [] \<and> list_all isDigit ds)"
  shows "\<not> IsCursorPath (''/_db/'' @ name @ ''/_api/cursor'' @ suf)"
proof
  assume "IsCursorPath (''/_db/'' @ name @ ''/_api/cursor'' @ suf)"
  then obtain pre suf' where p: "''/_db/'' @ name @ ''/_api/cursor'' @ suf = pre @ ''/_api/cursor'' @ suf'"
    and u: "pre = [] \<or> (\<exists>n. pre = ''/_db/'' @ n \<and> n \<noteq> [] \<and> list_all validDBChar n)"
    and w: "suf' = [] \<or> (\<exists>ds. suf' = CHR ''/'' # ds \<and> ds \<noteq> [] \<and> list_all isDigit ds)"
    unfolding IsCursorPath_iff specCursorPath_def by blast
  from p u obtain n where pre: "pre = ''/_db/'' @ n" and nne: "n \<noteq> []" and nv: "list_all validDBChar n"
    by auto
  have nsf: "CHR ''/'' \<notin> set n" using nv validDBChar_not_slash by (auto simp: list_all_iff)
  from p pre have eq: "name @ CHR ''/'' # (''_api/cursor'' @ suf) = n @ CHR ''/'' # (''_api/cursor'' @ suf')"
    by simp
  show False
  proof (cases "CHR ''/'' \<in> set name")
    case False
    from slashfree_split_unique[OF False nsf eq] have "name = n" by simp
    with bad nne nv show False by simp
  next
    case True
    then obtain k r0 where nm: "name = k @ CHR ''/'' # r0" and ksf: "CHR ''/'' \<notin> set k"
      by (meson split_list_first)
    from eq nm have "k @ CHR ''/'' # (r0 @ ''/_api/cursor'' @ suf) = n @ CHR ''/'' # (''_api/cursor'' @ suf')"
      by simp
    from slashfree_split_unique[OF ksf nsf this]
    have e2: "r0 @ ''/_api/cursor'' @ suf = ''_api/cursor'' @ suf'" by simp
    then have "length (filter isSlash (r0 @ ''/_api/cursor'' @ suf)) =
               length (filter isSlash (''_api/cursor'' @ suf'))" by simp
    then have cnt: "length (filter isSlash r0) + 2 + length (filter isSlash suf) =
               1 + length (filter isSlash suf')" by (simp add: isSlash_def)
    have le: "length (filter isSlash suf') \<le> 1"
      using w digits_no_slash by (auto simp: isSlash_def)
    from cnt le have s0: "length (filter isSlash suf) = 0" by arith
    from cnt le have s1: "length (filter isSlash suf') = 1" by arith
    from s0 suf have sufe: "suf = []" by (auto simp: isSlash_def)
    from s1 w obtain ds where s': "suf' = CHR ''/'' # ds" and ne: "ds \<noteq> []" and d: "list_all isDigit ds"
      by auto
    from e2 sufe s' ne have "last (r0 @ ''/_api/cursor'') = last ds" by simp
    then have "last ds = CHR ''r''" by simp
    moreover have "isDigit (last ds)" using d ne by (simp add: list_all_iff)
    ultimately show False by (simp add: isDigit_def)
  qed
qed

lemma boundaryMatch_prefix: "boundaryMatch s a \<Longrightarrow> \<exists>t. s = a @ t"
  by (auto simp: boundaryMatch_def)

lemma db_prefix_unique:
  assumes "n = ''/_db/'' @ nm @ CHR ''/'' # rest" and "CHR ''/'' \<notin> set nm"
    and "n = ''/_db/'' @ name' @ CHR ''/'' # tail" and "list_all validDBChar name'"
  shows "name' = nm \<and> tail = rest"
proof -
  have "CHR ''/'' \<notin> set name'"
    using assms(4) validDBChar_not_slash by (auto simp: list_all_iff)
  moreover have "name' @ CHR ''/'' # tail = nm @ CHR ''/'' # rest" using assms(1,3) by simp
  ultimately show ?thesis using slashfree_split_unique assms(2) by blast
qed

lemma api_invalid_db_rejected:
  assumes bad: "name = [] \<or> \<not> list_all validDBChar name"
    and seg: "CHR ''/'' \<notin> set name"
    and x: "x \<noteq> []" "CHR ''/'' \<notin> set x" "hd x \<noteq> CHR ''_''" "hd x \<noteq> CHR ''.''"
    and m: "boundaryMatch s (''/_api/'' @ x)"
  shows "\<not> HasAPIPathPrefix (''/_db/'' @ name @ s) (''/_api/'' @ x)"
proof (cases "Contains (''/_db/'' @ name @ s) ''..''")
  case True
  then show ?thesis by (simp add: HasAPIPathPrefix_iff)
next
  case False
  let ?a = "''/_api/'' @ x"
  from m obtain t where s: "s = ''/_api/'' @ x @ t" using boundaryMatch_prefix by fastforce
  have xs: "\<forall>c\<in>set x. \<not> isSlash c" using x(2) by (auto simp: isSlash_def)
  from FieldsFunc_run_then[OF x(1) xs, of t] obtain t1 r where
    fx: "FieldsFunc (x @ t) isSlash = (x @ t1) # r" by blast
  have xt: "x @ t1 \<noteq> ''.''" using x(1,4) by (cases x) auto
  have fn: "FieldsFunc name isSlash = (if name = [] then [] else [name])"
    using seg FieldsFunc_single[of name isSlash] by (auto simp: isSlash_def)
  define body where "body = ''_db'' @ CHR ''/'' # (name @ CHR ''/'' # (''_api'' @ CHR ''/'' # (x @ t)))"
  have P: "''/_db/'' @ name @ s = CHR ''/'' # body"
    using s by (simp add: body_def)
  have ff: "FieldsFunc body isSlash
      = [''_db''] @ (if name = [] then [] else [name]) @ [''_api''] @ (x @ t1) # r"
    unfolding body_def
    by (simp only: FieldsFunc_slash fx fn) (simp add: isSlash_def)
  define more where "more = (let r' = filter (\<lambda>e. e \<noteq> ''.'') r in if r' = [] then [] else CHR ''/'' # joinElems r')"
  have "normalise (CHR ''/'' # body) =
      CHR ''/'' # joinElems (filter (\<lambda>e. e \<noteq> ''.'') (FieldsFunc body isSlash))"
    using False normalise_rooted[of body] unfolding P by blast
  then have norm: "normalise (''/_db/'' @ name @ s) =
      (if name = [] \<or> name = ''.'' then ''/_db/'' @ ''_api'' @ CHR ''/'' # (x @ t1 @ more)
       else ''/_db/'' @ name @ CHR ''/'' # (''_api/'' @ x @ t1 @ more))"
    unfolding P ff by (simp add: xt joinElems_Cons more_def Let_def)
  have direct: "\<not> boundaryMatch (normalise (''/_db/'' @ name @ s)) ?a"
    unfolding norm by (auto simp: boundaryMatch_def)
  have db: "\<not> (\<exists>name' tail. normalise (''/_db/'' @ name @ s) = ''/_db/'' @ name' @ CHR ''/'' # tail \<and>
        name' \<noteq> [] \<and> list_all validDBChar name' \<and> boundaryMatch (CHR ''/'' # tail) ?a)"
  proof
    assume "\<exists>name' tail. normalise (''/_db/'' @ name @ s) = ''/_db/'' @ name' @ CHR ''/'' # tail \<and>
        name' \<noteq> [] \<and> list_all validDBChar name' \<and> boundaryMatch (CHR ''/'' # tail) ?a"
    then obtain name' tail where
      n: "normalise (''/_db/'' @ name @ s) = ''/_db/'' @ name' @ CHR ''/'' # tail"
      and ne: "name' \<noteq> []" and v: "list_all validDBChar name'"
      and b: "boundaryMatch (CHR ''/'' # tail) ?a" by blast
    show False
    proof (cases "name = [] \<or> name = ''.''")
      case True
      then have "normalise (''/_db/'' @ name @ s) = ''/_db/'' @ ''_api'' @ CHR ''/'' # (x @ t1 @ more)"
        using norm by simp
      from db_prefix_unique[OF this _ n v] have "tail = x @ t1 @ more" by simp
      with b obtain u where "CHR ''/'' # x @ t1 @ more = ''/_api/'' @ x @ u"
        using boundaryMatch_prefix by fastforce
      then have "hd x = CHR ''_''" using x(1) by (cases x) auto
      with x(3) show False by simp
    next
      case False
      then have "normalise (''/_db/'' @ name @ s) = ''/_db/'' @ name @ CHR ''/'' # (''_api/'' @ x @ t1 @ more)"
        using norm by simp
      from db_prefix_unique[OF this seg n v] have "name' = name" by simp
      with ne v bad show False by simp
    qed
  qed
  from direct db show ?thesis by (simp add: HasAPIPathPrefix_iff specPrefixMatch_def)
qed

lemma admin_not_matched:
  assumes "prefix ''/_api'' a"
  shows "\<not> HasAPIPathPrefix (''/_admin/'' @ x) a"
proof (cases "Contains (''/_admin/'' @ x) ''..''")
  case True
  then show ?thesis by (simp add: HasAPIPathPrefix_iff)
next
  case False
  from assms obtain a' where a: "a = ''/_api'' @ a'" by (auto simp: prefix_def)
  define body where "body = ''_admin'' @ CHR ''/'' # x"
  have P: "''/_admin/'' @ x = CHR ''/'' # body" by (simp add: body_def)
  have ff: "FieldsFunc body isSlash = ''_admin'' # FieldsFunc x isSlash"
    unfolding body_def by (simp only: FieldsFunc_slash) (simp add: isSlash_def)
  have "normalise (CHR ''/'' # body) =
      CHR ''/'' # joinElems (filter (\<lambda>e. e \<noteq> ''.'') (FieldsFunc body isSlash))"
    using False normalise_rooted[of body] unfolding P by blast
  then obtain more where norm: "normalise (''/_admin/'' @ x) = ''/_admin'' @ more"
    unfolding P ff by (simp add: joinElems_Cons)
  show ?thesis
    unfolding HasAPIPathPrefix_iff specPrefixMatch_def norm a
    by (auto simp: boundaryMatch_def)
qed

section \<open>Tokens are the maximal runs\<close>

lemma FieldsFunc_nonempty_runs:
  "t \<in> set (FieldsFunc s f) \<Longrightarrow> t \<noteq> [] \<and> (\<forall>c\<in>set t. \<not> f c)"
proof (induction s f rule: FieldsFunc.induct)
  case (1 f)
  then show ?case by simp
next
  case (2 c cs f)
  show ?case
  proof (cases "f c")
    case True
    with 2 show ?thesis by simp
  next
    case False
    let ?t = "takeWhile (\<lambda>x. \<not> f x) cs" and ?d = "dropWhile (\<lambda>x. \<not> f x) cs"
    from 2(3) False consider "t = c # ?t" | "t \<in> set (FieldsFunc ?d f)" by auto
    then show ?thesis
    proof cases
      case 1
      have "\<forall>x\<in>set ?t. \<not> f x" using set_takeWhileD[of _ "\<lambda>x. \<not> f x" cs] by blast
      with 1 False show ?thesis by simp
    next
      case 2
      with "2.IH"(2) False show ?thesis by blast
    qed
  qed
qed

lemma FieldsFunc_maximal:
  "t \<in> set (FieldsFunc s f) \<Longrightarrow>
     \<exists>pre post. s = pre @ t @ post \<and> (pre = [] \<or> f (last pre)) \<and> (post = [] \<or> f (hd post))"
proof (induction s f rule: FieldsFunc.induct)
  case (1 f)
  then show ?case by simp
next
  case (2 c cs f)
  show ?case
  proof (cases "f c")
    case True
    with 2 obtain pre post where "cs = pre @ t @ post" "pre = [] \<or> f (last pre)" "post = [] \<or> f (hd post)"
      by auto
    then have "c # cs = (c # pre) @ t @ post \<and> (c # pre = [] \<or> f (last (c # pre))) \<and> (post = [] \<or> f (hd post))"
      using True by auto
    then show ?thesis by blast
  next
    case False
    let ?t = "takeWhile (\<lambda>x. \<not> f x) cs" and ?d = "dropWhile (\<lambda>x. \<not> f x) cs"
    from 2(3) False consider "t = c # ?t" | "t \<in> set (FieldsFunc ?d f)" by auto
    then show ?thesis
    proof cases
      case 1
      have "c # cs = [] @ t @ ?d" using 1 by simp
      moreover have "?d = [] \<or> f (hd ?d)" using hd_dropWhile[of "\<lambda>x. \<not> f x" cs] by auto
      ultimately show ?thesis by blast
    next
      case 2
      with "2.IH"(2) False obtain pre post where
        d: "?d = pre @ t @ post" and p: "pre = [] \<or> f (last pre)" and q: "post = [] \<or> f (hd post)"
        by blast
      from 2 have tne: "t \<noteq> []" and tf: "\<forall>c\<in>set t. \<not> f c"
        using FieldsFunc_nonempty_runs by blast+
      have pne: "pre \<noteq> []"
      proof
        assume "pre = []"
        with d tne have "hd ?d = hd t" by simp
        moreover have "?d \<noteq> []" using d tne by auto
        ultimately have "f (hd t)" using hd_dropWhile[of "\<lambda>x. \<not> f x" cs] by auto
        with tf tne show False by (cases t) auto
      qed
      have "c # cs = (c # ?t @ pre) @ t @ post"
        using d by (metis append_Cons append_assoc takeWhile_dropWhile_id)
      moreover have "f (last (c # ?t @ pre))" using p pne by simp
      ultimately show ?thesis using q by blast
    qed
  qed
qed

lemma FieldsFunc_contains_run:
  assumes "t \<noteq> []" "\<forall>c\<in>set t. \<not> f c" "pre = [] \<or> f (last pre)" "post = [] \<or> f (hd post)"
  shows "t \<in> set (FieldsFunc (pre @ t @ post) f)"
proof -
  have tail: "t \<in> set (FieldsFunc (t @ post) f)"
  proof (cases post)
    case Nil
    then show ?thesis using FieldsFunc_single[OF assms(1,2)] by simp
  next
    case (Cons y ys)
    with assms(4) have "f y" by simp
    then show ?thesis
      using FieldsFunc_append_sep[of f y t ys] FieldsFunc_single[OF assms(1,2)] Cons by simp
  qed
  show ?thesis
  proof (cases pre rule: rev_cases)
    case Nil
    with tail show ?thesis by simp
  next
    case (snoc ps x)
    with assms(3) have "f x" by simp
    then show ?thesis
      using FieldsFunc_append_sep[of f x ps "t @ post"] tail snoc by simp
  qed
qed

lemma notLetter_iff: "notLetter c \<longleftrightarrow> \<not> isUpperLetter c"
  by (auto simp: notLetter_def isUpperLetter_def)

lemma tokens_iff: "t \<in> set (FieldsFunc s notLetter) \<longleftrightarrow> letterRun s t"
proof
  assume t: "t \<in> set (FieldsFunc s notLetter)"
  from FieldsFunc_nonempty_runs[OF t] FieldsFunc_maximal[OF t]
  show "letterRun s t"
    unfolding letterRun_def list_all_iff notLetter_iff by blast
next
  assume "letterRun s t"
  then obtain pre post where s: "s = pre @ t @ post" and ne: "t \<noteq> []"
    and l: "\<forall>c\<in>set t. \<not> notLetter c"
    and p: "pre = [] \<or> notLetter (last pre)" and q: "post = [] \<or> notLetter (hd post)"
    unfolding letterRun_def list_all_iff notLetter_iff by blast
  show "t \<in> set (FieldsFunc s notLetter)"
    unfolding s by (rule FieldsFunc_contains_run[OF ne l p q])
qed

lemma forbidden_map_iff: "ForbiddenAQLKeywords t \<noteq> None \<longleftrightarrow> t \<in> set forbiddenKeywordsList"
  by (simp add: ForbiddenAQLKeywords_def forbiddenKeywordsList_def)

lemma find_SomeD: "find P xs = Some x \<Longrightarrow> x \<in> set xs \<and> P x"
  by (induction xs) (auto split: if_splits)

lemma find_hit_iff: "find P xs \<noteq> None \<longleftrightarrow> (\<exists>x. x \<in> set xs \<and> P x)"
  by (induction xs) auto

lemma scanQuery_denies_iff:
  "scanQuery rt q \<noteq> None \<longleftrightarrow>
     (\<exists>t. letterRun (ToUpper (mapUnicodeUpper rt) q) t \<and> t \<in> set forbiddenKeywordsList)"
proof -
  let ?tokens = "FieldsFunc (ToUpper (mapUnicodeUpper rt) q) notLetter"
  have "scanQuery rt q \<noteq> None \<longleftrightarrow> find (\<lambda>token. ForbiddenAQLKeywords token \<noteq> None) ?tokens \<noteq> None"
    by (simp add: scanQuery_def Let_def split: option.splits)
  also have "\<dots> \<longleftrightarrow> (\<exists>t. t \<in> set ?tokens \<and> ForbiddenAQLKeywords t \<noteq> None)"
    by (rule find_hit_iff)
  finally show ?thesis unfolding tokens_iff forbidden_map_iff .
qed

lemma scanQuery_reason:
  assumes "scanQuery rt q = Some e"
  shows "\<exists>t. e = ForbiddenAQL t \<and> letterRun (ToUpper (mapUnicodeUpper rt) q) t \<and>
         t \<in> set forbiddenKeywordsList"
proof -
  let ?tokens = "FieldsFunc (ToUpper (mapUnicodeUpper rt) q) notLetter"
  from assms obtain t where f: "find (\<lambda>token. ForbiddenAQLKeywords token \<noteq> None) ?tokens = Some t"
    and e: "e = ForbiddenAQL t"
    by (auto simp: scanQuery_def Let_def split: option.splits)
  from find_SomeD[OF f] have "t \<in> set ?tokens" and "ForbiddenAQLKeywords t \<noteq> None" by blast+
  with e show ?thesis unfolding tokens_iff forbidden_map_iff by blast
qed

lemma scanRawBody_denies_iff:
  "scanRawBody rt b \<noteq> None \<longleftrightarrow>
     (\<exists>k. k \<in> set forbiddenKeywordsList \<and> (\<exists>ps ss. ToUpper (mapUnicodeUpper rt) b = ps @ k @ ss))"
proof -
  let ?up = "ToUpper (mapUnicodeUpper rt) b"
  have "scanRawBody rt b \<noteq> None \<longleftrightarrow> find (\<lambda>keyword. Contains ?up keyword) forbiddenKeywordsList \<noteq> None"
    by (simp add: scanRawBody_def Let_def split: option.splits)
  also have "\<dots> \<longleftrightarrow> (\<exists>k. k \<in> set forbiddenKeywordsList \<and> Contains ?up k)"
    by (rule find_hit_iff)
  finally show ?thesis unfolding Contains_iff .
qed

lemma scanRawBody_reason:
  assumes "scanRawBody rt b = Some e"
  shows "\<exists>k. e = ForbiddenBody k \<and> k \<in> set forbiddenKeywordsList \<and>
         (\<exists>ps ss. ToUpper (mapUnicodeUpper rt) b = ps @ k @ ss)"
proof -
  let ?up = "ToUpper (mapUnicodeUpper rt) b"
  from assms obtain k where f: "find (\<lambda>keyword. Contains ?up keyword) forbiddenKeywordsList = Some k"
    and e: "e = ForbiddenBody k"
    by (auto simp: scanRawBody_def Let_def split: option.splits)
  from find_SomeD[OF f] have "k \<in> set forbiddenKeywordsList" and "Contains ?up k" by blast+
  with e show ?thesis unfolding Contains_iff by blast
qed

section \<open>Running the policies and the peeker\<close>

lemma run_bind:
  "run (bind m f) peek s = (case run m peek s of (x, s') \<Rightarrow> run (f x) peek s')"
  by (induction m arbitrary: s) (auto split: prod.splits)

lemma bodyReader_consumed: "bodyConsumed s \<Longrightarrow> bodyReader l s = (Inr (cachedBody s), s)"
  by (simp add: bodyReader_def)

lemma bodyReader_marks_consumed: "bodyConsumed (snd (bodyReader l s))"
  by (auto simp: bodyReader_def ReadFrom_def Let_def split: option.splits readError.splits)

lemma run_consumed: "bodyConsumed s \<Longrightarrow> snd (run p bodyReader s) = s"
  by (induction p arbitrary: s) (auto simp: bodyReader_consumed)

lemma decision_AllowReadOnly:
  "decision (AllowReadOnly rt) r peek s =
     (if Method r = ''GET'' \<or> Method r = ''HEAD'' \<or> Method r = ''OPTIONS'' then None
      else if Method r = ''POST'' \<and> IsCursorPath (Path r) then
        (case fst (peek (128 * 1024) s) of Inl err \<Rightarrow> Some err | Inr b \<Rightarrow> inspectBody rt b)
      else if Method r = ''DELETE'' \<and> IsCursorPath (Path r) then None
      else Some (NotPermitted (Method r) (Path r)))"
  by (auto simp: decision_def AllowReadOnly_def Let_def split: prod.splits sum.splits)

lemma decision_AllowReadWrite:
  "decision (AllowReadWrite rt) r peek s =
     (if decision (AllowReadOnly rt) r peek s = None then None
      else if Method r = ''POST'' \<and>
           (IsCursorPath (Path r) \<or> list_ex (HasAPIPathPrefix (Path r)) AllowedRWAPIPaths) then None
      else if (Method r = ''PUT'' \<or> Method r = ''PATCH'' \<or> Method r = ''DELETE'') \<and>
           list_ex (HasAPIPathPrefix (Path r)) [''/_api/document'', ''/_api/collection'', ''/_api/index'']
        then None
      else Some (NotPermitted (Method r) (Path r)))"
  unfolding decision_def AllowReadWrite_def run_bind
  by (auto simp: Let_def list_ex_iff split: prod.splits)

lemma effectiveLimit_pos: "0 < effectiveLimit limit"
  by (simp add: effectiveLimit_def MaxBodyPeekSize_def)

lemma bodyReader_init_success:
  assumes "bodyReader l (initPeeker r) = (Inr bs, s1)"
  shows "bodyConsumed s1 \<and> cachedBody s1 = bs \<and> (\<forall>b. Body r = Some b \<longrightarrow> bs = unread b)"
  using assms effectiveLimit_pos[of l]
  by (auto simp: bodyReader_def ReadFrom_def initPeeker_def Let_def split: option.splits readError.splits if_splits)

lemma bodyReader_init_failure:
  assumes "bodyReader l (initPeeker r) = (Inl e, s1)"
  shows "bodyConsumed s1 \<and> cachedBody s1 = []"
  using assms
  by (auto simp: bodyReader_def ReadFrom_def initPeeker_def Let_def split: option.splits readError.splits if_splits)

lemma ServeHTTP_after_first_peek:
  assumes a: "allowFunc r = Peek l k" and p: "bodyReader l (initPeeker r) = (res, s1)"
    and d: "ServeHTTP rt allowFunc r = Dispatch u"
  shows "uBody u = Cached (cachedBody s1) \<and> uContentLength u = int (length (cachedBody s1))"
proof -
  have c: "bodyConsumed s1" using bodyReader_marks_consumed[of l "initPeeker r"] p by simp
  have "snd (run (k res) bodyReader s1) = s1" using c by (rule run_consumed)
  then obtain x where "run (allowFunc r) bodyReader (initPeeker r) = (x, s1)"
    using a p by (cases "run (k res) bodyReader s1") auto
  with d c show ?thesis
    by (auto simp: ServeHTTP_def Let_def split: option.splits if_splits)
qed

lemma ServeHTTP_allowed:
  assumes "decision allowFunc r bodyReader (initPeeker r) = None"
    and "\<not> newRequestFails rt (Method r) (buildUpstreamURL r)"
  shows "\<exists>u. ServeHTTP rt allowFunc r = Dispatch u"
  using assms
  by (cases "run (allowFunc r) bodyReader (initPeeker r)")
     (auto simp: ServeHTTP_def decision_def Let_def)

lemma ServeHTTP_denied:
  assumes "decision allowFunc r bodyReader (initPeeker r) = Some err"
  shows "ServeHTTP rt allowFunc r = Reply 403 (errorString err)"
  using assms
  by (cases "run (allowFunc r) bodyReader (initPeeker r)")
     (auto simp: ServeHTTP_def decision_def Let_def)

lemmas policy_eval =
  decision_def AllowReadOnly_def AllowReadWrite_def IsCursorPath_def cursorPathRegexp_def
  inspectBody_def scanQuery_def scanRawBody_def ToUpper_def isASCII_def upperASCII_def
  notLetter_def ForbiddenAQLKeywords_def forbiddenKeywordsList_def AllowedRWAPIPaths_def
  mockBodyPeeker_def emptyBodyPeeker_def

lemma admin_not_cursor: "\<not> IsCursorPath (''/_admin/'' @ x)"
  by (auto simp: IsCursorPath_iff specCursorPath_def)

section \<open>Traversal is always refused\<close>

text \<open>
  C4. A path with a \<^verbatim>\<open>..\<close> segment (an element between slashes that is exactly two
  dots) is never matched by \<^verbatim>\<open>HasAPIPathPrefix\<close>, whatever the API path.
\<close>

theorem C4_dotdot_segment_rejected:
  "''..'' \<in> set (FieldsFunc p isSlash) \<Longrightarrow> \<not> HasAPIPathPrefix p apiPath"
proof -
  assume "''..'' \<in> set (FieldsFunc p isSlash)"
  then have "sublist ''..'' p" by (rule FieldsFunc_sublist)
  then have "Contains p ''..''" by (simp add: Contains_def Index_nonneg_iff)
  then show ?thesis by (simp add: HasAPIPathPrefix_def Let_def)
qed

theorem C4_dotdot_segment_rejected_witness:
  "''..'' \<in> set (FieldsFunc ''/_db/../_api/document'' isSlash) \<and>
   \<not> HasAPIPathPrefix ''/_db/../_api/document'' ''/_api/document''"
proof -
  have h: "''..'' \<in> set (FieldsFunc ''/_db/../_api/document'' isSlash)"
    by (simp add: isSlash_def)
  show ?thesis using h C4_dotdot_segment_rejected [OF h] by blast
qed

section \<open>What \<^verbatim>\<open>HasAPIPathPrefix\<close> accepts\<close>

text \<open>
  C3, as the specification states it, refuses a raw path only when it has a \<^verbatim>\<open>..\<close>
  segment. The code refuses every raw path in which two dots stand next to each other:
  \<^verbatim>\<open>/_api/document/a..b\<close> has no \<^verbatim>\<open>..\<close> segment and normalises to itself, a path
  under \<^verbatim>\<open>/_api/document\<close>, yet \<^verbatim>\<open>HasAPIPathPrefix\<close> returns false on it.
\<close>

theorem C3_segment_reading_counterexample:
  "\<not> (HasAPIPathPrefix ''/_api/document/a..b'' ''/_api/document'' \<longleftrightarrow>
        ''..'' \<notin> set (FieldsFunc ''/_api/document/a..b'' isSlash) \<and>
        specPrefixMatch ''/_api/document/a..b'' ''/_api/document'')"
proof -
  have code: "\<not> HasAPIPathPrefix ''/_api/document/a..b'' ''/_api/document''"
    by (simp add: path_eval)
  have seg: "''..'' \<notin> set (FieldsFunc ''/_api/document/a..b'' isSlash)"
    by (simp add: isSlash_def)
  have n: "normalise ''/_api/document/a..b'' = ''/_api/document'' @ CHR ''/'' # ''a..b''"
    by (simp add: normalise_def Clean_def isSlash_def HasPrefix_def)
  have "boundaryMatch (normalise ''/_api/document/a..b'') ''/_api/document''"
    unfolding n boundaryMatch_def by blast
  then have "specPrefixMatch ''/_api/document/a..b'' ''/_api/document''"
    by (simp add: specPrefixMatch_def)
  with code seg show ?thesis by blast
qed

text \<open>
  C3, amended. \<^verbatim>\<open>HasAPIPathPrefix\<close> returns true if and only if the raw path nowhere
  contains two consecutive dots and the normalised path equals the API path, or starts
  with it followed immediately by \<^verbatim>\<open>/\<close> or \<^verbatim>\<open>?\<close>, directly or after a validated
  \<^verbatim>\<open>/_db/<name>\<close> prefix. The match is at a segment boundary: \<^verbatim>\<open>/_api/documentx\<close> does
  not match \<^verbatim>\<open>/_api/document\<close>, while \<^verbatim>\<open>/_api/document\<close> and \<^verbatim>\<open>/_api/document/x\<close> do.
\<close>

theorem C3_HasAPIPathPrefix_characterised:
  "(HasAPIPathPrefix p a \<longleftrightarrow>
      \<not> (\<exists>ps ss. p = ps @ ''..'' @ ss) \<and> specPrefixMatch p a) \<and>
   \<not> HasAPIPathPrefix ''/_api/documentx'' ''/_api/document'' \<and>
   HasAPIPathPrefix ''/_api/document'' ''/_api/document'' \<and>
   HasAPIPathPrefix ''/_api/document/x'' ''/_api/document''"
proof -
  have "HasAPIPathPrefix p a \<longleftrightarrow>
      \<not> (\<exists>ps ss. p = ps @ ''..'' @ ss) \<and> specPrefixMatch p a"
    using HasAPIPathPrefix_iff[of p a] Contains_iff[of p "''..''"] by simp
  moreover have "\<not> HasAPIPathPrefix ''/_api/documentx'' ''/_api/document''"
    by (simp add: path_eval)
  moreover have "HasAPIPathPrefix ''/_api/document'' ''/_api/document''"
    by (simp add: path_eval)
  moreover have "HasAPIPathPrefix ''/_api/document/x'' ''/_api/document''"
    by (simp add: path_eval)
  ultimately show ?thesis by blast
qed

theorem C3_HasAPIPathPrefix_characterised_witness:
  "HasAPIPathPrefix ''/_db/mydb/_api/document/coll'' ''/_api/document'' \<and>
   specPrefixMatch ''/_db/mydb/_api/document/coll'' ''/_api/document''"
proof -
  have "HasAPIPathPrefix ''/_db/mydb/_api/document/coll'' ''/_api/document''"
    by (simp add: path_eval)
  then show ?thesis
    using C3_HasAPIPathPrefix_characterised
      [of "''/_db/mydb/_api/document/coll''" "''/_api/document''"]
    by blast
qed

section \<open>Cursor endpoints and database names\<close>

text \<open>
  C9, as stated, has \<^verbatim>\<open>HasAPIPathPrefix\<close> refuse every path whose database name is
  empty or has a character outside the class, whenever the rest matches the API path.
  The code validates the element that follows \<^verbatim>\<open>/_db/\<close> in the cleaned path. A name
  that ends in a slash loses it in cleaning: \<^verbatim>\<open>/_db/my//_api/document\<close> is accepted for
  \<^verbatim>\<open>/_api/document\<close>. With an empty name the next element takes its place:
  \<^verbatim>\<open>/_db//x/x\<close> is accepted for the API path \<^verbatim>\<open>/x\<close>.
\<close>

theorem C9_database_name_counterexample:
  "(\<not> list_all validDBChar ''my/'' \<and> boundaryMatch ''/_api/document'' ''/_api/document'' \<and>
      HasAPIPathPrefix (''/_db/'' @ ''my/'' @ ''/_api/document'') ''/_api/document'') \<and>
   (boundaryMatch ''/x/x'' ''/x'' \<and> HasAPIPathPrefix (''/_db/'' @ [] @ ''/x/x'') ''/x'')"
proof -
  have "\<not> list_all validDBChar ''my/''" by (simp add: validDBChar_def)
  moreover have "boundaryMatch ''/_api/document'' ''/_api/document''"
    by (simp add: boundaryMatch_def)
  moreover have "HasAPIPathPrefix (''/_db/'' @ ''my/'' @ ''/_api/document'') ''/_api/document''"
    by (simp add: path_eval)
  moreover have "boundaryMatch ''/x/x'' ''/x''"
    unfolding boundaryMatch_def by (rule disjI2, rule disjI1, rule exI[of _ "''x''"]) simp
  moreover have "HasAPIPathPrefix (''/_db/'' @ [] @ ''/x/x'') ''/x''"
    by (simp add: path_eval)
  ultimately show ?thesis by blast
qed

text \<open>
  C9, amended. \<^verbatim>\<open>IsCursorPath\<close> holds exactly for an optional \<^verbatim>\<open>/_db/<name>\<close> prefix
  (name non-empty, over \<^verbatim>\<open>[A-Za-z0-9_-]\<close>) followed by \<^verbatim>\<open>/_api/cursor\<close> and optionally
  \<^verbatim>\<open>/<digits>\<close>, nothing trailing; in particular no path ending in a slash is a cursor
  path. For every database name that is empty or has a character outside the class,
  \<^verbatim>\<open>IsCursorPath\<close> refuses \<^verbatim>\<open>/_db/<name>\<close> followed by a cursor suffix. For every such
  name that is a single path segment (no slash in it), \<^verbatim>\<open>HasAPIPathPrefix\<close> refuses
  \<^verbatim>\<open>/_db/<name>\<close> followed by a suffix matching the API path, for each API path of
  \<^verbatim>\<open>AllowedRWAPIPaths\<close>. The name \<^verbatim>\<open>my/db\<close> of the tests is refused by both.
\<close>

theorem C9_cursor_path_and_database_names:
  "(IsCursorPath p \<longleftrightarrow> specCursorPath p) \<and>
   \<not> IsCursorPath (q @ ''/'') \<and>
   ((name = [] \<or> \<not> list_all validDBChar name) \<and>
    (suf = [] \<or> (\<exists>ds. suf = CHR ''/'' # ds \<and> ds \<noteq> [] \<and> list_all isDigit ds)) \<longrightarrow>
      \<not> IsCursorPath (''/_db/'' @ name @ ''/_api/cursor'' @ suf)) \<and>
   ((name = [] \<or> \<not> list_all validDBChar name) \<and> CHR ''/'' \<notin> set name \<and>
    a \<in> set AllowedRWAPIPaths \<and> boundaryMatch s a \<longrightarrow>
      \<not> HasAPIPathPrefix (''/_db/'' @ name @ s) a) \<and>
   \<not> HasAPIPathPrefix ''/_db/my/db/_api/document'' ''/_api/document'' \<and>
   \<not> IsCursorPath ''/_db/my/db/_api/cursor''"
proof (intro conjI impI)
  show "IsCursorPath p \<longleftrightarrow> specCursorPath p" by (rule IsCursorPath_iff)
  show "\<not> IsCursorPath (q @ ''/'')" by (rule cursor_trailing_slash)
  show "\<not> HasAPIPathPrefix ''/_db/my/db/_api/document'' ''/_api/document''"
    by (simp add: path_eval)
  show "\<not> IsCursorPath ''/_db/my/db/_api/cursor''"
    by (simp add: IsCursorPath_def cursorPathRegexp_def)
next
  assume "(name = [] \<or> \<not> list_all validDBChar name) \<and>
    (suf = [] \<or> (\<exists>ds. suf = CHR ''/'' # ds \<and> ds \<noteq> [] \<and> list_all isDigit ds))"
  then show "\<not> IsCursorPath (''/_db/'' @ name @ ''/_api/cursor'' @ suf)"
    using cursor_invalid_db_rejected by blast
next
  assume h: "(name = [] \<or> \<not> list_all validDBChar name) \<and> CHR ''/'' \<notin> set name \<and>
    a \<in> set AllowedRWAPIPaths \<and> boundaryMatch s a"
  then consider "a = ''/_api/'' @ ''document''" | "a = ''/_api/'' @ ''collection''"
    | "a = ''/_api/'' @ ''index''" | "a = ''/_api/'' @ ''import''"
    by (auto simp: AllowedRWAPIPaths_def)
  then show "\<not> HasAPIPathPrefix (''/_db/'' @ name @ s) a"
  proof cases
    case 1
    show ?thesis unfolding 1
      by (rule api_invalid_db_rejected) (use h 1 in simp_all)
  next
    case 2
    show ?thesis unfolding 2
      by (rule api_invalid_db_rejected) (use h 2 in simp_all)
  next
    case 3
    show ?thesis unfolding 3
      by (rule api_invalid_db_rejected) (use h 3 in simp_all)
  next
    case 4
    show ?thesis unfolding 4
      by (rule api_invalid_db_rejected) (use h 4 in simp_all)
  qed
qed

theorem C9_cursor_path_and_database_names_witness:
  "\<not> IsCursorPath ''/_db/my.db/_api/cursor'' \<and>
   \<not> HasAPIPathPrefix ''/_db/my.db/_api/document/c'' ''/_api/document''"
proof -
  have bad: "\<not> list_all validDBChar ''my.db''" by (simp add: validDBChar_def)
  have seg: "CHR ''/'' \<notin> set ''my.db''" by simp
  have mem: "''/_api/document'' \<in> set AllowedRWAPIPaths" by (simp add: AllowedRWAPIPaths_def)
  have bm: "boundaryMatch ''/_api/document/c'' ''/_api/document''"
    unfolding boundaryMatch_def by (rule disjI2, rule disjI1, rule exI[of _ "''c''"]) simp
  note t = C9_cursor_path_and_database_names
    [of "[]" "[]" "''my.db''" "[]" "''/_api/document''" "''/_api/document/c''"]
  from t bad have "\<not> IsCursorPath (''/_db/'' @ ''my.db'' @ ''/_api/cursor'' @ [])"
    by blast
  moreover from t bad seg mem bm
  have "\<not> HasAPIPathPrefix (''/_db/'' @ ''my.db'' @ ''/_api/document/c'') ''/_api/document''"
    by blast
  ultimately show ?thesis by simp
qed

section \<open>The read-only policy decides by method, path and body\<close>

text \<open>
  C1. \<^verbatim>\<open>AllowReadOnly\<close> allows a request if and only if the method is GET, HEAD or
  OPTIONS; or it is DELETE on a cursor path; or it is POST on a cursor path, the peek
  with limit 128 KiB (131072) returns the body, and the body passes the keyword check.
  For every other combination of method and path it denies, with the error
  \<^verbatim>\<open>method <method> not permitted on <path>\<close>.
\<close>

theorem C1_read_only_policy:
  "(decision (AllowReadOnly rt) r peek s = None \<longleftrightarrow>
      (Method r = ''GET'' \<or> Method r = ''HEAD'' \<or> Method r = ''OPTIONS'') \<or>
      (Method r = ''DELETE'' \<and> IsCursorPath (Path r)) \<or>
      (Method r = ''POST'' \<and> IsCursorPath (Path r) \<and>
         (\<exists>b. fst (peek 131072 s) = Inr b \<and> inspectBody rt b = None))) \<and>
   (\<not> (Method r = ''GET'' \<or> Method r = ''HEAD'' \<or> Method r = ''OPTIONS'') \<and>
    \<not> (Method r = ''DELETE'' \<and> IsCursorPath (Path r)) \<and>
    \<not> (Method r = ''POST'' \<and> IsCursorPath (Path r)) \<longrightarrow>
      decision (AllowReadOnly rt) r peek s = Some (NotPermitted (Method r) (Path r)) \<and>
      errorString (NotPermitted (Method r) (Path r)) =
        ''method '' @ Method r @ '' not permitted on '' @ Path r)"
  unfolding decision_AllowReadOnly
  by (auto split: sum.splits)

theorem C1_read_only_policy_witness:
  "\<forall>rt. decision (AllowReadOnly rt)
       \<lparr>Method = ''PUT'', Path = ''/_api/cursor/12345'', RawQuery = [], Body = None\<rparr>
       emptyBodyPeeker () = Some (NotPermitted ''PUT'' ''/_api/cursor/12345'') \<and>
     errorString (NotPermitted ''PUT'' ''/_api/cursor/12345'') =
       ''method PUT not permitted on /_api/cursor/12345''"
proof
  fix rt
  let ?r = "\<lparr>Method = ''PUT'', Path = ''/_api/cursor/12345'', RawQuery = [], Body = None\<rparr>"
  have h: "\<not> (Method ?r = ''GET'' \<or> Method ?r = ''HEAD'' \<or> Method ?r = ''OPTIONS'') \<and>
    \<not> (Method ?r = ''DELETE'' \<and> IsCursorPath (Path ?r)) \<and>
    \<not> (Method ?r = ''POST'' \<and> IsCursorPath (Path ?r))" by simp
  from C1_read_only_policy[of rt ?r emptyBodyPeeker "()", THEN conjunct2, rule_format, OF h]
  show "decision (AllowReadOnly rt) ?r emptyBodyPeeker () = Some (NotPermitted ''PUT'' ''/_api/cursor/12345'') \<and>
     errorString (NotPermitted ''PUT'' ''/_api/cursor/12345'') =
       ''method PUT not permitted on /_api/cursor/12345''"
    by simp
qed

section \<open>The read-write policy\<close>

text \<open>
  C2, as stated, has the read-write policy deny every method but GET on \<^verbatim>\<open>/_admin/*\<close>.
  HEAD and OPTIONS are allowed there as everywhere, because the read-only policy
  allows them and the read-write policy allows whatever it allows.
\<close>

theorem C2_methods_on_admin_counterexample:
  "\<forall>rt. decision (AllowReadWrite rt)
       \<lparr>Method = ''HEAD'', Path = ''/_admin/echo'', RawQuery = [], Body = None\<rparr>
       emptyBodyPeeker () = None"
  by (simp add: decision_AllowReadWrite decision_AllowReadOnly)

text \<open>
  C2, amended. \<^verbatim>\<open>AllowReadWrite\<close> allows every request \<^verbatim>\<open>AllowReadOnly\<close> allows; it
  allows exactly those, POST on a cursor path or on a path that \<^verbatim>\<open>HasAPIPathPrefix\<close>
  matches against \<^verbatim>\<open>/_api/document\<close>, \<^verbatim>\<open>/_api/collection\<close>, \<^verbatim>\<open>/_api/index\<close> or
  \<^verbatim>\<open>/_api/import\<close> (so also behind a database prefix), and PUT, PATCH, DELETE on a path
  matched against the first three. It denies PUT on \<^verbatim>\<open>/_api/import\<close>, and on every path
  \<^verbatim>\<open>/_admin/...\<close> it denies every method other than GET, HEAD and OPTIONS.
\<close>

theorem C2_read_write_policy:
  "(decision (AllowReadOnly rt) r peek s = None \<longrightarrow> decision (AllowReadWrite rt) r peek s = None) \<and>
   (decision (AllowReadWrite rt) r peek s = None \<longleftrightarrow>
      decision (AllowReadOnly rt) r peek s = None \<or>
      (Method r = ''POST'' \<and>
         (IsCursorPath (Path r) \<or>
          (\<exists>a. a \<in> set AllowedRWAPIPaths \<and> HasAPIPathPrefix (Path r) a))) \<or>
      ((Method r = ''PUT'' \<or> Method r = ''PATCH'' \<or> Method r = ''DELETE'') \<and>
         (\<exists>a. a \<in> set [''/_api/document'', ''/_api/collection'', ''/_api/index''] \<and>
              HasAPIPathPrefix (Path r) a))) \<and>
   AllowedRWAPIPaths = [''/_api/document'', ''/_api/collection'', ''/_api/index'', ''/_api/import''] \<and>
   (Method r = ''POST'' \<and> Path r = ''/_db/mydb/_api/import'' \<longrightarrow>
      decision (AllowReadWrite rt) r peek s = None) \<and>
   (Method r = ''PUT'' \<and> Path r = ''/_api/import'' \<longrightarrow>
      decision (AllowReadWrite rt) r peek s = Some (NotPermitted ''PUT'' ''/_api/import'')) \<and>
   (\<not> (Method r = ''GET'' \<or> Method r = ''HEAD'' \<or> Method r = ''OPTIONS'') \<and>
    Path r = ''/_admin/'' @ x \<longrightarrow>
      decision (AllowReadWrite rt) r peek s = Some (NotPermitted (Method r) (Path r)))"
proof (intro conjI impI)
  show "decision (AllowReadWrite rt) r peek s = None" if "decision (AllowReadOnly rt) r peek s = None"
    using that by (simp add: decision_AllowReadWrite)
  show "decision (AllowReadWrite rt) r peek s = None \<longleftrightarrow>
      decision (AllowReadOnly rt) r peek s = None \<or>
      (Method r = ''POST'' \<and>
         (IsCursorPath (Path r) \<or>
          (\<exists>a. a \<in> set AllowedRWAPIPaths \<and> HasAPIPathPrefix (Path r) a))) \<or>
      ((Method r = ''PUT'' \<or> Method r = ''PATCH'' \<or> Method r = ''DELETE'') \<and>
         (\<exists>a. a \<in> set [''/_api/document'', ''/_api/collection'', ''/_api/index''] \<and>
              HasAPIPathPrefix (Path r) a))"
    unfolding decision_AllowReadWrite list_ex_iff by (simp only: Bex_def split: if_splits) auto
  show "AllowedRWAPIPaths = [''/_api/document'', ''/_api/collection'', ''/_api/index'', ''/_api/import'']"
    by (rule AllowedRWAPIPaths_def)
  show "decision (AllowReadWrite rt) r peek s = None"
    if "Method r = ''POST'' \<and> Path r = ''/_db/mydb/_api/import''"
    using that by (simp add: decision_AllowReadWrite AllowedRWAPIPaths_def path_eval)
  show "decision (AllowReadWrite rt) r peek s = Some (NotPermitted ''PUT'' ''/_api/import'')"
    if "Method r = ''PUT'' \<and> Path r = ''/_api/import''"
    using that by (simp add: decision_AllowReadWrite decision_AllowReadOnly path_eval)
  show "decision (AllowReadWrite rt) r peek s = Some (NotPermitted (Method r) (Path r))"
    if h: "\<not> (Method r = ''GET'' \<or> Method r = ''HEAD'' \<or> Method r = ''OPTIONS'') \<and>
       Path r = ''/_admin/'' @ x"
  proof -
    have nc: "\<not> IsCursorPath (Path r)" using h admin_not_cursor by simp
    have "\<not> HasAPIPathPrefix (Path r) a" if "a \<in> set AllowedRWAPIPaths" for a
      using that h admin_not_matched[of a x] by (auto simp: AllowedRWAPIPaths_def)
    then have np: "\<not> list_ex (HasAPIPathPrefix (Path r)) AllowedRWAPIPaths"
      and np': "\<not> list_ex (HasAPIPathPrefix (Path r)) [''/_api/document'', ''/_api/collection'', ''/_api/index'']"
      by (auto simp: list_ex_iff AllowedRWAPIPaths_def)
    show ?thesis
      using h nc np np' by (simp add: decision_AllowReadWrite decision_AllowReadOnly)
  qed
qed

theorem C2_read_write_policy_witness:
  "\<forall>rt. decision (AllowReadWrite rt)
       \<lparr>Method = ''DELETE'', Path = ''/_admin/shutdown'', RawQuery = [], Body = None\<rparr>
       emptyBodyPeeker () = Some (NotPermitted ''DELETE'' ''/_admin/shutdown'')"
proof
  fix rt
  let ?r = "\<lparr>Method = ''DELETE'', Path = ''/_admin/shutdown'', RawQuery = [], Body = None\<rparr>"
  have h: "\<not> (Method ?r = ''GET'' \<or> Method ?r = ''HEAD'' \<or> Method ?r = ''OPTIONS'') \<and>
    Path ?r = ''/_admin/'' @ ''shutdown''" by simp
  from C2_read_write_policy[of rt ?r emptyBodyPeeker "()" "''shutdown''"] h
  have "decision (AllowReadWrite rt) ?r emptyBodyPeeker () = Some (NotPermitted (Method ?r) (Path ?r))"
    by blast
  then show "decision (AllowReadWrite rt) ?r emptyBodyPeeker () = Some (NotPermitted ''DELETE'' ''/_admin/shutdown'')"
    by simp
qed

section \<open>The keyword check of the read-only policy\<close>

lemma upperASCII_idem: "upperASCII (upperASCII c) = upperASCII c"
  by (simp add: upperASCII_def split: option.splits if_splits)

lemma upperASCII_ascii: "c < CHR 0x80 \<Longrightarrow> upperASCII c < CHR 0x80"
  by (auto simp: upperASCII_def split: option.splits if_splits)

lemma ToUpper_ascii_idem:
  "isASCII q \<Longrightarrow> ToUpper m (map upperASCII q) = ToUpper m q"
  by (simp add: ToUpper_def isASCII_def list_all_iff upperASCII_ascii upperASCII_idem)

text \<open>
  C5. For a POST on a cursor path whose peek returns the body \<open>b\<close>: if the body
  unmarshals with a non-empty query, the query is upper-cased and the request is denied
  if and only if one of its maximal runs of letters \<^verbatim>\<open>A..Z\<close> is one of INSERT, UPDATE,
  UPSERT, REMOVE, REPLACE, TRUNCATE, DROP, and the error names that token; if
  unmarshalling fails or gives an empty query, the whole body is upper-cased and the
  request is denied if and only if it contains one of the keywords as a substring, and
  the error names that keyword. So \<^verbatim>\<open>updatedAt\<close> in a query is allowed, and \<^verbatim>\<open>insert\<close>,
  \<^verbatim>\<open>Insert\<close>, \<^verbatim>\<open>iNsErT\<close> are denied as \<^verbatim>\<open>INSERT\<close> is: an ASCII query and its upper-cased
  form get the same verdict.
\<close>

theorem C5_keyword_check:
  assumes "Method r = ''POST''" and "IsCursorPath (Path r)" and "fst (peek 131072 s) = Inr b"
  shows
    "(unmarshalQuery rt b = Some q \<and> q \<noteq> [] \<longrightarrow>
        (decision (AllowReadOnly rt) r peek s \<noteq> None \<longleftrightarrow>
           (\<exists>t. letterRun (ToUpper (mapUnicodeUpper rt) q) t \<and> t \<in> set forbiddenKeywordsList)) \<and>
        (\<forall>e. decision (AllowReadOnly rt) r peek s = Some e \<longrightarrow>
           (\<exists>t. e = ForbiddenAQL t \<and> letterRun (ToUpper (mapUnicodeUpper rt) q) t \<and>
                t \<in> set forbiddenKeywordsList \<and>
                errorString e = ''forbidden keyword '' @ [CHR 0x22] @ t @ [CHR 0x22] @ '' detected in AQL''))) \<and>
     (unmarshalQuery rt b = None \<or> unmarshalQuery rt b = Some [] \<longrightarrow>
        (decision (AllowReadOnly rt) r peek s \<noteq> None \<longleftrightarrow>
           (\<exists>k. k \<in> set forbiddenKeywordsList \<and>
                (\<exists>ps ss. ToUpper (mapUnicodeUpper rt) b = ps @ k @ ss))) \<and>
        (\<forall>e. decision (AllowReadOnly rt) r peek s = Some e \<longrightarrow>
           (\<exists>k. e = ForbiddenBody k \<and> k \<in> set forbiddenKeywordsList \<and>
                (\<exists>ps ss. ToUpper (mapUnicodeUpper rt) b = ps @ k @ ss) \<and>
                errorString e =
                  ''forbidden keyword '' @ [CHR 0x22] @ k @ [CHR 0x22] @ '' detected in request body''))) \<and>
     forbiddenKeywordsList =
       [''INSERT'', ''UPDATE'', ''UPSERT'', ''REMOVE'', ''REPLACE'', ''TRUNCATE'', ''DROP''] \<and>
     (unmarshalQuery rt b = Some ''FOR doc IN collection RETURN doc.updatedAt'' \<longrightarrow>
        decision (AllowReadOnly rt) r peek s = None) \<and>
     (unmarshalQuery rt b = Some ''insert {x:1} INTO coll'' \<or>
      unmarshalQuery rt b = Some ''Insert {x:1} Into coll'' \<or>
      unmarshalQuery rt b = Some ''iNsErT {x:1} INTO coll'' \<or>
      unmarshalQuery rt b = Some ''INSERT {x:1} INTO coll'' \<longrightarrow>
        decision (AllowReadOnly rt) r peek s = Some (ForbiddenAQL ''INSERT'')) \<and>
     (isASCII q \<longrightarrow> scanQuery rt (map upperASCII q) = scanQuery rt q)"
proof -
  have d: "decision (AllowReadOnly rt) r peek s = inspectBody rt b"
    using assms by (simp add: decision_AllowReadOnly)
  have A: "decision (AllowReadOnly rt) r peek s = scanQuery rt q"
    if "unmarshalQuery rt b = Some q \<and> q \<noteq> []"
    using that d by (simp add: inspectBody_def)
  have B: "decision (AllowReadOnly rt) r peek s = scanRawBody rt b"
    if "unmarshalQuery rt b = None \<or> unmarshalQuery rt b = Some []"
    using that d by (auto simp: inspectBody_def)
  have 1: "unmarshalQuery rt b = Some q \<and> q \<noteq> [] \<longrightarrow>
        (decision (AllowReadOnly rt) r peek s \<noteq> None \<longleftrightarrow>
           (\<exists>t. letterRun (ToUpper (mapUnicodeUpper rt) q) t \<and> t \<in> set forbiddenKeywordsList)) \<and>
        (\<forall>e. decision (AllowReadOnly rt) r peek s = Some e \<longrightarrow>
           (\<exists>t. e = ForbiddenAQL t \<and> letterRun (ToUpper (mapUnicodeUpper rt) q) t \<and>
                t \<in> set forbiddenKeywordsList \<and>
                errorString e = ''forbidden keyword '' @ [CHR 0x22] @ t @ [CHR 0x22] @ '' detected in AQL''))"
  proof (intro impI conjI allI)
    assume h: "unmarshalQuery rt b = Some q \<and> q \<noteq> []"
    show "decision (AllowReadOnly rt) r peek s \<noteq> None \<longleftrightarrow>
           (\<exists>t. letterRun (ToUpper (mapUnicodeUpper rt) q) t \<and> t \<in> set forbiddenKeywordsList)"
      unfolding A[OF h] by (rule scanQuery_denies_iff)
    fix e assume "decision (AllowReadOnly rt) r peek s = Some e"
    then have "scanQuery rt q = Some e" using A[OF h] by simp
    from scanQuery_reason[OF this] obtain t where "e = ForbiddenAQL t"
      "letterRun (ToUpper (mapUnicodeUpper rt) q) t" "t \<in> set forbiddenKeywordsList" by blast
    then show "\<exists>t. e = ForbiddenAQL t \<and> letterRun (ToUpper (mapUnicodeUpper rt) q) t \<and>
                t \<in> set forbiddenKeywordsList \<and>
                errorString e = ''forbidden keyword '' @ [CHR 0x22] @ t @ [CHR 0x22] @ '' detected in AQL''"
      by (simp add: quoted_def)
  qed
  have 2: "unmarshalQuery rt b = None \<or> unmarshalQuery rt b = Some [] \<longrightarrow>
        (decision (AllowReadOnly rt) r peek s \<noteq> None \<longleftrightarrow>
           (\<exists>k. k \<in> set forbiddenKeywordsList \<and>
                (\<exists>ps ss. ToUpper (mapUnicodeUpper rt) b = ps @ k @ ss))) \<and>
        (\<forall>e. decision (AllowReadOnly rt) r peek s = Some e \<longrightarrow>
           (\<exists>k. e = ForbiddenBody k \<and> k \<in> set forbiddenKeywordsList \<and>
                (\<exists>ps ss. ToUpper (mapUnicodeUpper rt) b = ps @ k @ ss) \<and>
                errorString e =
                  ''forbidden keyword '' @ [CHR 0x22] @ k @ [CHR 0x22] @ '' detected in request body''))"
  proof (intro impI conjI allI)
    assume h: "unmarshalQuery rt b = None \<or> unmarshalQuery rt b = Some []"
    show "decision (AllowReadOnly rt) r peek s \<noteq> None \<longleftrightarrow>
           (\<exists>k. k \<in> set forbiddenKeywordsList \<and>
                (\<exists>ps ss. ToUpper (mapUnicodeUpper rt) b = ps @ k @ ss))"
      unfolding B[OF h] by (rule scanRawBody_denies_iff)
    fix e assume "decision (AllowReadOnly rt) r peek s = Some e"
    then have "scanRawBody rt b = Some e" using B[OF h] by simp
    from scanRawBody_reason[OF this] obtain k where "e = ForbiddenBody k"
      "k \<in> set forbiddenKeywordsList" "\<exists>ps ss. ToUpper (mapUnicodeUpper rt) b = ps @ k @ ss" by blast
    then show "\<exists>k. e = ForbiddenBody k \<and> k \<in> set forbiddenKeywordsList \<and>
                (\<exists>ps ss. ToUpper (mapUnicodeUpper rt) b = ps @ k @ ss) \<and>
                errorString e =
                  ''forbidden keyword '' @ [CHR 0x22] @ k @ [CHR 0x22] @ '' detected in request body''"
      by (simp add: quoted_def)
  qed
  have 3: "forbiddenKeywordsList =
       [''INSERT'', ''UPDATE'', ''UPSERT'', ''REMOVE'', ''REPLACE'', ''TRUNCATE'', ''DROP'']"
    by (rule forbiddenKeywordsList_def)
  have 4: "unmarshalQuery rt b = Some ''FOR doc IN collection RETURN doc.updatedAt'' \<longrightarrow>
        decision (AllowReadOnly rt) r peek s = None"
    unfolding d by (simp add: policy_eval)
  have 5: "unmarshalQuery rt b = Some ''insert {x:1} INTO coll'' \<or>
      unmarshalQuery rt b = Some ''Insert {x:1} Into coll'' \<or>
      unmarshalQuery rt b = Some ''iNsErT {x:1} INTO coll'' \<or>
      unmarshalQuery rt b = Some ''INSERT {x:1} INTO coll'' \<longrightarrow>
        decision (AllowReadOnly rt) r peek s = Some (ForbiddenAQL ''INSERT'')"
    unfolding d by (auto simp: policy_eval)
  have 6: "isASCII q \<longrightarrow> scanQuery rt (map upperASCII q) = scanQuery rt q"
    by (simp add: scanQuery_def ToUpper_ascii_idem)
  from 1 2 3 4 5 6 show ?thesis by blast
qed

theorem C5_keyword_check_witness:
  "decision
     (AllowReadOnly \<lparr>unmarshalQuery = (\<lambda>b. Some ''iNsErT {x:1} INTO coll''),
        mapUnicodeUpper = (\<lambda>s. s), newRequestFails = (\<lambda>m u. False)\<rparr>)
     \<lparr>Method = ''POST'', Path = ''/_api/cursor'', RawQuery = [], Body = None\<rparr>
     (mockBodyPeeker ''payload'') () = Some (ForbiddenAQL ''INSERT'')"
proof -
  let ?rt = "\<lparr>unmarshalQuery = (\<lambda>b. Some ''iNsErT {x:1} INTO coll''),
        mapUnicodeUpper = (\<lambda>s. s), newRequestFails = (\<lambda>m u. False)\<rparr>"
  let ?r = "\<lparr>Method = ''POST'', Path = ''/_api/cursor'', RawQuery = [], Body = None\<rparr>"
  have m: "Method ?r = ''POST''" by simp
  have c: "IsCursorPath (Path ?r)" by (simp add: IsCursorPath_def cursorPathRegexp_def)
  have p: "fst (mockBodyPeeker ''payload'' 131072 ()) = Inr ''payload''"
    by (simp add: mockBodyPeeker_def)
  have u: "unmarshalQuery ?rt ''payload'' = Some ''iNsErT {x:1} INTO coll''" by simp
  from C5_keyword_check[where r = ?r and peek = "mockBodyPeeker ''payload''" and s = "()"
      and b = "''payload''" and rt = ?rt, OF m c p] u
  show ?thesis by blast
qed

section \<open>A failed inspection under the two handlers\<close>

text \<open>
  C6. The claim is that a request whose body inspection fails is answered with 403 and
  the inspection error, under the read-only and under the read-write handler. Evaluated
  on a POST to \<^verbatim>\<open>/_api/cursor\<close> whose body has 131073 bytes, one more than the 128 KiB
  the read-only policy peeks: the read-only handler answers 403 with the error; under
  the read-write handler \<^verbatim>\<open>AllowReadWrite\<close> drops the error \<^verbatim>\<open>AllowReadOnly\<close> returned and
  allows the POST, and the handler builds the upstream request with an empty body and
  content length 0.
\<close>

theorem C6_read_write_handler_forwards_after_failed_inspection:
  "ServeHTTP rt (AllowReadWrite rt)
     \<lparr>Method = ''POST'', Path = ''/_api/cursor'', RawQuery = [],
      Body = Some \<lparr>unread = replicate 131073 (CHR ''x''), ending = None, closed = False\<rparr>\<rparr> =
     (if newRequestFails rt ''POST'' ''http://arangodb/_api/cursor''
      then Reply 500 ''failed to build upstream request''
      else Dispatch \<lparr>uMethod = ''POST'', uURL = ''http://arangodb/_api/cursor'',
             uBody = Cached [], uContentLength = 0\<rparr>) \<and>
   ServeHTTP rt (AllowReadOnly rt)
     \<lparr>Method = ''POST'', Path = ''/_api/cursor'', RawQuery = [],
      Body = Some \<lparr>unread = replicate 131073 (CHR ''x''), ending = None, closed = False\<rparr>\<rparr> =
     Reply 403 ''request body exceeds inspection limit (131072 bytes)''"
proof -
  let ?r = "\<lparr>Method = ''POST'', Path = ''/_api/cursor'', RawQuery = [],
      Body = Some \<lparr>unread = replicate 131073 (CHR ''x''), ending = None, closed = False\<rparr>\<rparr>"
  have c: "IsCursorPath ''/_api/cursor''" by (simp add: IsCursorPath_def cursorPathRegexp_def)
  have p: "bodyReader (128 * 1024) (initPeeker ?r) =
      (Inl (ExceedsLimit 131072),
       \<lparr>cachedBody = [], bodyConsumed = True,
        body = Some \<lparr>unread = [], ending = None, closed = True\<rparr>\<rparr>)"
    by (simp add: bodyReader_def ReadFrom_def initPeeker_def effectiveLimit_def MaxBodyPeekSize_def Let_def)
  have ro: "run (AllowReadOnly rt ?r) bodyReader (initPeeker ?r) =
      (Some (ExceedsLimit 131072),
       \<lparr>cachedBody = [], bodyConsumed = True,
        body = Some \<lparr>unread = [], ending = None, closed = True\<rparr>\<rparr>)"
    using c p by (simp add: AllowReadOnly_def Let_def)
  have rw: "run (AllowReadWrite rt ?r) bodyReader (initPeeker ?r) =
      (None,
       \<lparr>cachedBody = [], bodyConsumed = True,
        body = Some \<lparr>unread = [], ending = None, closed = True\<rparr>\<rparr>)"
    unfolding AllowReadWrite_def run_bind ro using c by (simp add: Let_def)
  have e: "errorString (ExceedsLimit 131072) = ''request body exceeds inspection limit (131072 bytes)''"
    by (simp add: intDecimal_def digitChar_def)
  show ?thesis
    unfolding ServeHTTP_def ro rw using e by (simp add: buildUpstreamURL_def Let_def)
qed

theorem C6_read_write_handler_forwards_after_failed_inspection_witness:
  "ServeHTTP \<lparr>unmarshalQuery = (\<lambda>b. None), mapUnicodeUpper = (\<lambda>s. s),
        newRequestFails = (\<lambda>m u. False)\<rparr>
     (AllowReadWrite \<lparr>unmarshalQuery = (\<lambda>b. None), mapUnicodeUpper = (\<lambda>s. s),
        newRequestFails = (\<lambda>m u. False)\<rparr>)
     \<lparr>Method = ''POST'', Path = ''/_api/cursor'', RawQuery = [],
      Body = Some \<lparr>unread = replicate 131073 (CHR ''x''), ending = None, closed = False\<rparr>\<rparr> =
   Dispatch \<lparr>uMethod = ''POST'', uURL = ''http://arangodb/_api/cursor'',
      uBody = Cached [], uContentLength = 0\<rparr>"
  using C6_read_write_handler_forwards_after_failed_inspection
    [of "\<lparr>unmarshalQuery = (\<lambda>b. None), mapUnicodeUpper = (\<lambda>s. s),
        newRequestFails = (\<lambda>m u. False)\<rparr>"]
  by simp

section \<open>The body peeker\<close>

text \<open>
  C7. The effective limit is the requested limit clamped to the ceiling of 16 MiB, the
  ceiling itself for a limit of zero or less. On its first call the peeker takes at most
  effective limit + 1 bytes from the stream. A body longer than the effective limit
  gives an error on that call: "exceeds inspection limit", except that a body of
  exactly effective limit + 1 bytes whose stream reports a read error together with its
  last bytes gives that read error. A body of exactly the effective limit, on a stream
  that ends normally, is returned whole.
\<close>

theorem C7_first_peek_bounds:
  assumes "\<not> bodyConsumed s" and "body s = Some b"
  shows "effectiveLimit limit = (if limit \<le> 0 then MaxBodyPeekSize else min limit MaxBodyPeekSize) \<and>
     MaxBodyPeekSize = 16777216 \<and>
     (\<exists>got b'. body (snd (bodyReader limit s)) = Some b' \<and> unread b = got @ unread b' \<and>
        int (length got) \<le> effectiveLimit limit + 1) \<and>
     (effectiveLimit limit < int (length (unread b)) \<longrightarrow>
        (\<exists>e. fst (bodyReader limit s) = Inl e)) \<and>
     (effectiveLimit limit < int (length (unread b)) \<longrightarrow>
        fst (bodyReader limit s) =
          (case ending b of
             Some (WithLastData msg) \<Rightarrow>
               if int (length (unread b)) = effectiveLimit limit + 1 then Inl (ReadFailed msg)
               else Inl (ExceedsLimit (effectiveLimit limit))
           | _ \<Rightarrow> Inl (ExceedsLimit (effectiveLimit limit)))) \<and>
     (int (length (unread b)) = effectiveLimit limit \<and> ending b = None \<longrightarrow>
        fst (bodyReader limit s) = Inr (unread b))"
proof -
  have 1: "effectiveLimit limit = (if limit \<le> 0 then MaxBodyPeekSize else min limit MaxBodyPeekSize)"
    by (simp add: effectiveLimit_def MaxBodyPeekSize_def)
  have 2: "MaxBodyPeekSize = 16777216" by (simp add: MaxBodyPeekSize_def)
  let ?n = "nat (effectiveLimit limit + 1)"
  let ?b' = "b\<lparr>unread := drop ?n (unread b), closed := True\<rparr>"
  have "body (snd (bodyReader limit s)) = Some ?b'"
    using assms
    by (auto simp: bodyReader_def ReadFrom_def Let_def split: option.splits readError.splits)
  moreover have "unread b = take ?n (unread b) @ unread ?b'" by simp
  moreover have "int (length (take ?n (unread b))) \<le> effectiveLimit limit + 1"
    using effectiveLimit_pos[of limit] by simp
  ultimately have 3: "\<exists>got b'. body (snd (bodyReader limit s)) = Some b' \<and>
        unread b = got @ unread b' \<and> int (length got) \<le> effectiveLimit limit + 1"
    by blast
  have 5: "fst (bodyReader limit s) =
          (case ending b of
             Some (WithLastData msg) \<Rightarrow>
               if int (length (unread b)) = effectiveLimit limit + 1 then Inl (ReadFailed msg)
               else Inl (ExceedsLimit (effectiveLimit limit))
           | _ \<Rightarrow> Inl (ExceedsLimit (effectiveLimit limit)))"
    if "effectiveLimit limit < int (length (unread b))"
    using that assms effectiveLimit_pos[of limit]
    by (auto simp: bodyReader_def ReadFrom_def Let_def split: option.splits readError.splits)
  have 4: "\<exists>e. fst (bodyReader limit s) = Inl e"
    if "effectiveLimit limit < int (length (unread b))"
    using 5[OF that] by (auto split: option.splits readError.splits)
  have 6: "fst (bodyReader limit s) = Inr (unread b)"
    if "int (length (unread b)) = effectiveLimit limit \<and> ending b = None"
    using that assms effectiveLimit_pos[of limit]
    by (auto simp: bodyReader_def ReadFrom_def Let_def split: option.splits)
  from 1 2 3 4 5 6 show ?thesis by blast
qed

theorem C7_first_peek_bounds_witness:
  "fst (bodyReader 3 \<lparr>cachedBody = [], bodyConsumed = False,
       body = Some \<lparr>unread = ''abcd'', ending = None, closed = False\<rparr>\<rparr>) = Inl (ExceedsLimit 3) \<and>
   fst (bodyReader 3 \<lparr>cachedBody = [], bodyConsumed = False,
       body = Some \<lparr>unread = ''abcd'', ending = Some (WithLastData ''unexpected EOF''),
                closed = False\<rparr>\<rparr>) = Inl (ReadFailed ''unexpected EOF'') \<and>
   fst (bodyReader 4 \<lparr>cachedBody = [], bodyConsumed = False,
       body = Some \<lparr>unread = ''abcd'', ending = None, closed = False\<rparr>\<rparr>) = Inr ''abcd''"
proof -
  let ?b = "\<lparr>unread = ''abcd'', ending = None, closed = False\<rparr>"
  let ?s = "\<lparr>cachedBody = [], bodyConsumed = False, body = Some ?b\<rparr>"
  let ?c = "\<lparr>unread = ''abcd'', ending = Some (WithLastData ''unexpected EOF''), closed = False\<rparr>"
  let ?t = "\<lparr>cachedBody = [], bodyConsumed = False, body = Some ?c\<rparr>"
  have n: "\<not> bodyConsumed ?s" and b: "body ?s = Some ?b" by simp_all
  have m: "\<not> bodyConsumed ?t" and c: "body ?t = Some ?c" by simp_all
  have e3: "effectiveLimit 3 = 3" and e4: "effectiveLimit 4 = 4"
    by (simp_all add: effectiveLimit_def MaxBodyPeekSize_def)
  have over: "effectiveLimit 3 < int (length (unread ?b))" using e3 by simp
  have over': "effectiveLimit 3 < int (length (unread ?c))" using e3 by simp
  from C7_first_peek_bounds[OF n b, of 3] over
  have "fst (bodyReader 3 ?s) =
      (case ending ?b of
         Some (WithLastData msg) \<Rightarrow>
           if int (length (unread ?b)) = effectiveLimit 3 + 1 then Inl (ReadFailed msg)
           else Inl (ExceedsLimit (effectiveLimit 3))
       | _ \<Rightarrow> Inl (ExceedsLimit (effectiveLimit 3)))" by blast
  then have A: "fst (bodyReader 3 ?s) = Inl (ExceedsLimit 3)" using e3 by simp
  from C7_first_peek_bounds[OF m c, of 3] over'
  have "fst (bodyReader 3 ?t) =
      (case ending ?c of
         Some (WithLastData msg) \<Rightarrow>
           if int (length (unread ?c)) = effectiveLimit 3 + 1 then Inl (ReadFailed msg)
           else Inl (ExceedsLimit (effectiveLimit 3))
       | _ \<Rightarrow> Inl (ExceedsLimit (effectiveLimit 3)))" by blast
  then have B: "fst (bodyReader 3 ?t) = Inl (ReadFailed ''unexpected EOF'')" using e3 by simp
  have "int (length (unread ?b)) = effectiveLimit 4 \<and> ending ?b = None" using e4 by simp
  with C7_first_peek_bounds[OF n b, of 4]
  have C: "fst (bodyReader 4 ?s) = Inr (unread ?b)" by blast
  from A B C show ?thesis by simp
qed

text \<open>
  C8. After a first successful peek of a request's body, every later peek, with any
  limit, returns the same bytes and leaves the peeker's state, the stream in it
  included, as it is. The snapshot is the whole body. For a handler whose first peek
  this was, the request it sends upstream carries exactly the snapshot as its body and
  the snapshot's length as content length; and it does send one when the policy allows
  and the upstream request can be built.
\<close>

theorem C8_snapshot_is_what_goes_upstream:
  assumes "bodyReader l (initPeeker r) = (Inr bs, s1)"
  shows "(\<forall>l'. bodyReader l' s1 = (Inr bs, s1)) \<and>
     (\<forall>b. Body r = Some b \<longrightarrow> bs = unread b) \<and>
     (\<forall>k u. allowFunc r = Peek l k \<and> ServeHTTP rt allowFunc r = Dispatch u \<longrightarrow>
        uBody u = Cached bs \<and> uContentLength u = int (length bs)) \<and>
     (\<forall>k. allowFunc r = Peek l k \<and> decision allowFunc r bodyReader (initPeeker r) = None \<and>
        \<not> newRequestFails rt (Method r) (buildUpstreamURL r) \<longrightarrow>
        (\<exists>u. ServeHTTP rt allowFunc r = Dispatch u))"
proof (intro conjI allI impI)
  from bodyReader_init_success[OF assms]
  have c: "bodyConsumed s1" and cb: "cachedBody s1 = bs"
    and whole: "\<forall>b. Body r = Some b \<longrightarrow> bs = unread b" by blast+
  show "bodyReader l' s1 = (Inr bs, s1)" for l'
    using bodyReader_consumed[OF c, of l'] cb by simp
  show "bs = unread b" if "Body r = Some b" for b using whole that by blast
  show "uBody u = Cached bs" and "uContentLength u = int (length bs)"
    if "allowFunc r = Peek l k \<and> ServeHTTP rt allowFunc r = Dispatch u" for k u
    using ServeHTTP_after_first_peek[of allowFunc r l k "Inr bs" s1 rt u] that assms cb by simp_all
  show "\<exists>u. ServeHTTP rt allowFunc r = Dispatch u"
    if "allowFunc r = Peek l k \<and> decision allowFunc r bodyReader (initPeeker r) = None \<and>
        \<not> newRequestFails rt (Method r) (buildUpstreamURL r)" for k
  proof -
    from that have "decision allowFunc r bodyReader (initPeeker r) = None"
      and "\<not> newRequestFails rt (Method r) (buildUpstreamURL r)" by simp_all
    then show ?thesis by (rule ServeHTTP_allowed)
  qed
qed

theorem C8_snapshot_is_what_goes_upstream_witness:
  "\<exists>u. ServeHTTP \<lparr>unmarshalQuery = (\<lambda>b. None), mapUnicodeUpper = (\<lambda>s. s),
               newRequestFails = (\<lambda>m u. False)\<rparr>
          (AllowReadOnly \<lparr>unmarshalQuery = (\<lambda>b. None), mapUnicodeUpper = (\<lambda>s. s),
               newRequestFails = (\<lambda>m u. False)\<rparr>)
          \<lparr>Method = ''POST'', Path = ''/_api/cursor'', RawQuery = [],
           Body = Some \<lparr>unread = ''payload'', ending = None, closed = False\<rparr>\<rparr> = Dispatch u \<and>
        uBody u = Cached ''payload'' \<and> uContentLength u = 7"
proof -
  let ?rt = "\<lparr>unmarshalQuery = (\<lambda>b. None), mapUnicodeUpper = (\<lambda>s. s),
               newRequestFails = (\<lambda>m u. False)\<rparr>"
  let ?r = "\<lparr>Method = ''POST'', Path = ''/_api/cursor'', RawQuery = [],
           Body = Some \<lparr>unread = ''payload'', ending = None, closed = False\<rparr>\<rparr>"
  let ?s1 = "\<lparr>cachedBody = ''payload'', bodyConsumed = True,
        body = Some \<lparr>unread = [], ending = None, closed = True\<rparr>\<rparr>"
  have c: "IsCursorPath ''/_api/cursor''" by (simp add: IsCursorPath_def cursorPathRegexp_def)
  have first: "bodyReader 131072 (initPeeker ?r) = (Inr ''payload'', ?s1)"
    by (simp add: bodyReader_def ReadFrom_def initPeeker_def effectiveLimit_def MaxBodyPeekSize_def Let_def)
  obtain k where pk: "AllowReadOnly ?rt ?r = Peek 131072 k"
    using c by (simp add: AllowReadOnly_def Let_def)
  have ok: "decision (AllowReadOnly ?rt) ?r bodyReader (initPeeker ?r) = None"
    using c first by (simp add: decision_AllowReadOnly policy_eval Contains_def)
  have nf: "\<not> newRequestFails ?rt (Method ?r) (buildUpstreamURL ?r)" by simp
  note t = C8_snapshot_is_what_goes_upstream[OF first, of "AllowReadOnly ?rt" ?rt]
  from t pk ok nf obtain u where u: "ServeHTTP ?rt (AllowReadOnly ?rt) ?r = Dispatch u" by blast
  with t pk have "uBody u = Cached ''payload'' \<and> uContentLength u = int (length ''payload'')"
    by blast
  with u show ?thesis by simp
qed

text \<open>
  C10. The peeker does not cache an error. When the first peek fails, the request is
  marked consumed and the cache stays empty, so every later peek returns no bytes and
  no error, which is also what peeking a request without a body returns; a handler that
  goes on after such a failure sends an empty body upstream, with content length 0.
\<close>

theorem C10_failed_peek_leaves_empty_snapshot:
  assumes "bodyReader l (initPeeker r) = (Inl e, s1)"
  shows "bodyConsumed s1 \<and> cachedBody s1 = [] \<and>
     (\<forall>l'. bodyReader l' s1 = (Inr [], s1)) \<and>
     (\<forall>l' l''. fst (bodyReader l' (initPeeker (r\<lparr>Body := None\<rparr>))) = Inr [] \<and>
        fst (bodyReader l'' (snd (bodyReader l' (initPeeker (r\<lparr>Body := None\<rparr>))))) = Inr []) \<and>
     (\<forall>k u. allowFunc r = Peek l k \<and> ServeHTTP rt allowFunc r = Dispatch u \<longrightarrow>
        uBody u = Cached [] \<and> uContentLength u = 0)"
proof (intro conjI allI impI)
  from bodyReader_init_failure[OF assms]
  show c: "bodyConsumed s1" and cb: "cachedBody s1 = []" by blast+
  show "bodyReader l' s1 = (Inr [], s1)" for l'
    using bodyReader_consumed[OF c, of l'] cb by simp
  show "fst (bodyReader l' (initPeeker (r\<lparr>Body := None\<rparr>))) = Inr []" for l'
    by (simp add: bodyReader_def initPeeker_def)
  show "fst (bodyReader l'' (snd (bodyReader l' (initPeeker (r\<lparr>Body := None\<rparr>))))) = Inr []"
    for l' l''
    by (simp add: bodyReader_def initPeeker_def)
  show "uBody u = Cached []" and "uContentLength u = 0"
    if "allowFunc r = Peek l k \<and> ServeHTTP rt allowFunc r = Dispatch u" for k u
    using ServeHTTP_after_first_peek[of allowFunc r l k "Inl e" s1 rt u] that assms cb by simp_all
qed

theorem C10_failed_peek_leaves_empty_snapshot_witness:
  "\<exists>u. ServeHTTP \<lparr>unmarshalQuery = (\<lambda>b. None), mapUnicodeUpper = (\<lambda>s. s),
               newRequestFails = (\<lambda>m u. False)\<rparr>
          (AllowReadWrite \<lparr>unmarshalQuery = (\<lambda>b. None), mapUnicodeUpper = (\<lambda>s. s),
               newRequestFails = (\<lambda>m u. False)\<rparr>)
          \<lparr>Method = ''POST'', Path = ''/_api/cursor'', RawQuery = [],
           Body = Some \<lparr>unread = ''payload'', ending = Some (AfterData ''connection reset''),
                    closed = False\<rparr>\<rparr> = Dispatch u \<and>
        uBody u = Cached [] \<and> uContentLength u = 0"
proof -
  let ?rt = "\<lparr>unmarshalQuery = (\<lambda>b. None), mapUnicodeUpper = (\<lambda>s. s),
               newRequestFails = (\<lambda>m u. False)\<rparr>"
  let ?r = "\<lparr>Method = ''POST'', Path = ''/_api/cursor'', RawQuery = [],
           Body = Some \<lparr>unread = ''payload'', ending = Some (AfterData ''connection reset''),
                    closed = False\<rparr>\<rparr>"
  let ?s1 = "\<lparr>cachedBody = [], bodyConsumed = True,
        body = Some \<lparr>unread = [], ending = Some (AfterData ''connection reset''), closed = True\<rparr>\<rparr>"
  have c: "IsCursorPath ''/_api/cursor''" by (simp add: IsCursorPath_def cursorPathRegexp_def)
  have first: "bodyReader 131072 (initPeeker ?r) = (Inl (ReadFailed ''connection reset''), ?s1)"
    by (simp add: bodyReader_def ReadFrom_def initPeeker_def effectiveLimit_def MaxBodyPeekSize_def Let_def)
  obtain k where pk: "AllowReadWrite ?rt ?r = Peek 131072 k"
    using c by (simp add: AllowReadWrite_def AllowReadOnly_def Let_def)
  have ok: "decision (AllowReadWrite ?rt) ?r bodyReader (initPeeker ?r) = None"
    using c by (simp add: decision_AllowReadWrite)
  have nf: "\<not> newRequestFails ?rt (Method ?r) (buildUpstreamURL ?r)" by simp
  from ServeHTTP_allowed[OF ok nf]
  obtain u where u: "ServeHTTP ?rt (AllowReadWrite ?rt) ?r = Dispatch u" by blast
  from C10_failed_peek_leaves_empty_snapshot[OF first, of "AllowReadWrite ?rt" ?rt] pk u
  have "uBody u = Cached [] \<and> uContentLength u = 0" by blast
  with u show ?thesis by blast
qed

end
